theory Spec2Isabelle
  imports Main
begin

section \<open>BakeLang: abstract syntax\<close>

text \<open>
  The interpreter \<^verbatim>\<open>BakeLangInterpret.py\<close> builds its syntax tree from one Python class
  per node kind, each with an \<^verbatim>\<open>eval\<close> method. Here every class is a constructor, with the
  fields in the order of the class's \<^verbatim>\<open>__init__\<close>, and the \<^verbatim>\<open>eval\<close> methods are the cases of
  one recursive function per syntactic category.
\<close>

datatype expr =
    Number int
  | String string
  | Var string
  | BinOp expr string expr

datatype stmt =
    IngredientDecl string string
  | MixStmt expr string
  | ServeStmt expr
  | AskStmt expr string
  | IfStmt expr "stmt list" "stmt list option"
  | RepeatStmt expr expr "stmt list"
  | MakeStmt string "expr list"

datatype recipe_def = RecipeDef string "string list" "stmt list"

datatype program = Program "recipe_def list" "stmt list"

section \<open>Values, environments, errors\<close>

text \<open>
  The dictionary stored under the key \<^verbatim>\<open>__recipes__\<close>: recipe name to (params, body), in
  insertion order.
\<close>

type_synonym recipes = "(string \<times> string list \<times> stmt list) list"

text \<open>
  What a key of \<^verbatim>\<open>env\<close> can hold: \<^verbatim>\<open>None\<close> (written by \<^verbatim>\<open>IngredientDecl.eval\<close>), an
  \<^verbatim>\<open>int\<close>, a \<^verbatim>\<open>str\<close>, or the recipes dictionary itself (\<^verbatim>\<open>Program.eval\<close> and
  \<^verbatim>\<open>MakeStmt.eval\<close> store it in the same dictionary as the variables). The dictionary is
  only written during the registration pass of \<^verbatim>\<open>Program.eval\<close>, before any reference to it
  is copied, so a reference to it is modelled by its contents.
\<close>

datatype val = VNone | VInt int | VStr string | VRecipes recipes

type_synonym env = "string \<Rightarrow> val option"

text \<open>
  The tokens \<^verbatim>\<open>tokenize\<close> constructs: \<^verbatim>\<open>Token('NUMBER', int(val))\<close>,
  \<^verbatim>\<open>Token('STRING', val[1:-1])\<close>, \<^verbatim>\<open>Token('ID', val)\<close>, \<^verbatim>\<open>Token('OP', val)\<close>,
  \<^verbatim>\<open>Token(val, val)\<close> for one of the characters \<^verbatim>\<open>;:{}(),\<close> and \<^verbatim>\<open>Token('EOF', None)\<close>.
  \<open>ttype\<close> and \<open>tvalue\<close> are the fields \<^verbatim>\<open>type\<close> and \<^verbatim>\<open>value\<close>; \<open>tstr\<close> reads a
  \<^verbatim>\<open>value\<close> that is a \<^verbatim>\<open>str\<close> (the parser takes it from \<^verbatim>\<open>ID\<close> and \<^verbatim>\<open>OP\<close> tokens only).
\<close>

datatype token = NUMBER int | STRING string | ID string | OP string | SYM char | EOF

fun ttype :: "token \<Rightarrow> string" where
  "ttype (NUMBER n) = ''NUMBER''"
| "ttype (STRING s) = ''STRING''"
| "ttype (ID s) = ''ID''"
| "ttype (OP s) = ''OP''"
| "ttype (SYM c) = [c]"
| "ttype EOF = ''EOF''"

fun tvalue :: "token \<Rightarrow> val" where
  "tvalue (NUMBER n) = VInt n"
| "tvalue (STRING s) = VStr s"
| "tvalue (ID s) = VStr s"
| "tvalue (OP s) = VStr s"
| "tvalue (SYM c) = VStr [c]"
| "tvalue EOF = VNone"

fun tstr :: "token \<Rightarrow> string" where
  "tstr (STRING s) = s"
| "tstr (ID s) = s"
| "tstr (OP s) = s"
| "tstr (SYM c) = [c]"
| "tstr t = []"

text \<open>
  The exceptions the interpreter raises, with the data of their messages, and the
  exceptions Python raises on its own in the operations the interpreter performs.
\<close>

datatype error =
    SyntaxError_expected string "val option" token
  | SyntaxError_statement token
  | SyntaxError_token token
  | IndexError
  | NameError_undefined string
  | NameError_recipe string
  | TypeError_args string nat nat
  | SyntaxError_operator string
  | TypeError
  | ZeroDivisionError
  | ValueError
  | KeyError
  | EOFError
  | RecursionError

text \<open>
  What the Python that runs the interpreter decides, and this repository does not, is a
  parameter of the model: \<^verbatim>\<open>int(raw)\<close> on a line of input (\<open>None\<close> for \<^verbatim>\<open>ValueError\<close>), the
  \<^verbatim>\<open>%\<close> operator with a \<^verbatim>\<open>str\<close> on the left (printf-style formatting, which returns a
  string or raises), \<^verbatim>\<open>str\<close> of the recipes dictionary (which prints object addresses),
  and \<^verbatim>\<open>sys.get_int_max_str_digits()\<close>, the number of decimal digits beyond which \<^verbatim>\<open>str\<close>
  of an \<^verbatim>\<open>int\<close> raises \<^verbatim>\<open>ValueError\<close> (4300 by default from CPython 3.11 on; 0 when the
  limit is off, and in a Python that has none).
\<close>

record host =
  int_of_str :: "string \<Rightarrow> int option"
  str_format :: "string \<Rightarrow> val \<Rightarrow> error + string"
  str_recipes :: "recipes \<Rightarrow> string"
  max_str_digits :: nat

section \<open>Python's \<^verbatim>\<open>str\<close>, truth value and \<^verbatim>\<open>in\<close>\<close>

definition digit_char :: "nat \<Rightarrow> char" where
  "digit_char d = ''0123456789'' ! d"

fun str_nat :: "nat \<Rightarrow> string" where
  "str_nat n = (if n < 10 then [digit_char n] else str_nat (n div 10) @ [digit_char (n mod 10)])"

declare str_nat.simps [simp del]

definition str_int :: "int \<Rightarrow> string" where
  "str_int i = (if i < 0 then CHR ''-'' # str_nat (nat (- i)) else str_nat (nat i))"

text \<open>
  \<^verbatim>\<open>str(v)\<close>. An integer has more than \<open>n\<close> decimal digits when its absolute value is
  at least \<open>10 ^ n\<close>.
\<close>

fun py_str :: "host \<Rightarrow> val \<Rightarrow> error + string" where
  "py_str h VNone = Inr ''None''"
| "py_str h (VInt i) =
     (if 0 < max_str_digits h \<and> 10 ^ max_str_digits h \<le> \<bar>i\<bar> then Inl ValueError
      else Inr (str_int i))"
| "py_str h (VStr s) = Inr s"
| "py_str h (VRecipes t) = Inr (str_recipes h t)"

fun truthy :: "val \<Rightarrow> bool" where
  "truthy VNone = False"
| "truthy (VInt i) = (i \<noteq> 0)"
| "truthy (VStr s) = (s \<noteq> [])"
| "truthy (VRecipes t) = (t \<noteq> [])"

fun isinstance_str :: "val \<Rightarrow> bool" where
  "isinstance_str (VStr s) = True"
| "isinstance_str v = False"

fun str_contains :: "string \<Rightarrow> string \<Rightarrow> bool" where
  "str_contains [] sub = (sub = [])"
| "str_contains (c # cs) sub = (take (length sub) (c # cs) = sub \<or> str_contains cs sub)"

section \<open>Expressions\<close>

fun py_add :: "val \<Rightarrow> val \<Rightarrow> error + val" where
  "py_add (VInt a) (VInt b) = Inr (VInt (a + b))"
| "py_add a b = Inl TypeError"

fun py_mod :: "host \<Rightarrow> val \<Rightarrow> val \<Rightarrow> error + val" where
  "py_mod h (VInt a) (VInt b) = (if b = 0 then Inl ZeroDivisionError else Inr (VInt (a mod b)))"
| "py_mod h (VStr s) b = (case str_format h s b of Inl e \<Rightarrow> Inl e | Inr r \<Rightarrow> Inr (VStr r))"
| "py_mod h a b = Inl TypeError"

fun eval_expr :: "host \<Rightarrow> env \<Rightarrow> expr \<Rightarrow> error + val" where
  "eval_expr h en (Number v) = Inr (VInt v)"
| "eval_expr h en (String v) = Inr (VStr v)"
| "eval_expr h en (Var n) =
     (case en n of
        None \<Rightarrow> Inl (NameError_undefined n)
      | Some VNone \<Rightarrow> Inl (NameError_undefined n)
      | Some v \<Rightarrow> Inr v)"
| "eval_expr h en (BinOp left op right) =
     (case eval_expr h en left of
        Inl e \<Rightarrow> Inl e
      | Inr a \<Rightarrow>
          (case eval_expr h en right of
             Inl e \<Rightarrow> Inl e
           | Inr b \<Rightarrow>
               if op = ''+'' then
                 (if isinstance_str a \<or> isinstance_str b
                  then (case py_str h a of
                          Inl e \<Rightarrow> Inl e
                        | Inr sa \<Rightarrow>
                            (case py_str h b of
                               Inl e \<Rightarrow> Inl e
                             | Inr sb \<Rightarrow> Inr (VStr (sa @ sb))))
                  else py_add a b)
               else if op = ''%'' then py_mod h a b
               else if op = ''=='' then Inr (VInt (if a = b then 1 else 0))
               else Inl (SyntaxError_operator op)))"

section \<open>Statements\<close>

text \<open>
  What a run has written to standard output (\<^verbatim>\<open>print\<close> writes a line, \<^verbatim>\<open>input\<close> writes its
  prompt), the lines standard input still holds, and the dictionary \<^verbatim>\<open>env\<close> of the frame
  that is executing.
\<close>

datatype event = Printed string | Prompted string

record state =
  env :: env
  out :: "event list"
  inp :: "string list"

text \<open>
  A statement returns, or an exception leaves it. The state of \<open>Raise\<close> is the one the
  frame of the statement has at that moment: what was printed and read stays so.
\<close>

datatype result = Done state | Raise error state

text \<open>
  The loop \<^verbatim>\<open>for pname, arg in zip(params, self.args): local[pname] = arg.eval(env)\<close>.
\<close>

fun bind_args :: "host \<Rightarrow> env \<Rightarrow> (string \<times> expr) list \<Rightarrow> env \<Rightarrow> error + env" where
  "bind_args h en [] local = Inr local"
| "bind_args h en ((pname, arg) # rest) local =
     (case eval_expr h en arg of
        Inl e \<Rightarrow> Inl e
      | Inr v \<Rightarrow> bind_args h en rest (local(pname \<mapsto> v)))"

text \<open>
  \<open>eval_stmt\<close> is \<^verbatim>\<open>s.eval(env)\<close>, \<open>eval_block\<close> the loop \<^verbatim>\<open>for s in stmts: s.eval(env)\<close>,
  and \<open>eval_range body i stop\<close> the loop of \<^verbatim>\<open>RepeatStmt.eval\<close> over what is left of
  \<^verbatim>\<open>range(lo, hi+1)\<close>, from \<open>i\<close> up to but excluding \<open>stop\<close>. The number \<open>d\<close> is how many
  nested recipe calls the host's stack still has room for: a call beyond it raises
  \<^verbatim>\<open>RecursionError\<close>. The nesting of statements and expressions inside one frame is
  taken to fit.
\<close>

function eval_stmt :: "host \<Rightarrow> nat \<Rightarrow> stmt \<Rightarrow> state \<Rightarrow> result"
  and eval_block :: "host \<Rightarrow> nat \<Rightarrow> stmt list \<Rightarrow> state \<Rightarrow> result"
  and eval_range :: "host \<Rightarrow> nat \<Rightarrow> stmt list \<Rightarrow> int \<Rightarrow> int \<Rightarrow> state \<Rightarrow> result"
where
  "eval_stmt h d (IngredientDecl name ty) s = Done (s\<lparr>env := (env s)(name \<mapsto> VNone)\<rparr>)"
| "eval_stmt h d (MixStmt ex target) s =
     (case eval_expr h (env s) ex of
        Inl e \<Rightarrow> Raise e s
      | Inr v \<Rightarrow> Done (s\<lparr>env := (env s)(target \<mapsto> v)\<rparr>))"
| "eval_stmt h d (ServeStmt ex) s =
     (case eval_expr h (env s) ex of
        Inl e \<Rightarrow> Raise e s
      | Inr v \<Rightarrow>
          (case py_str h v of
             Inl e \<Rightarrow> Raise e s
           | Inr line \<Rightarrow> Done (s\<lparr>out := out s @ [Printed line]\<rparr>)))"
| "eval_stmt h d (AskStmt prompt target) s =
     (case eval_expr h (env s) prompt of
        Inl e \<Rightarrow> Raise e s
      | Inr p \<Rightarrow>
          (case py_str h p of
             Inl e \<Rightarrow> Raise e s
           | Inr text \<Rightarrow>
               (let s1 = s\<lparr>out := out s @ [Prompted (text @ '' '')]\<rparr> in
                case inp s1 of
                  [] \<Rightarrow> Raise EOFError s1
                | raw # rest \<Rightarrow>
                    Done (s1\<lparr>inp := rest,
                             env := (env s1)(target \<mapsto>
                               (case int_of_str h raw of Some i \<Rightarrow> VInt i | None \<Rightarrow> VStr raw))\<rparr>))))"
| "eval_stmt h d (IfStmt cond then_s else_s) s =
     (case eval_expr h (env s) cond of
        Inl e \<Rightarrow> Raise e s
      | Inr c \<Rightarrow>
          if truthy c then eval_block h d then_s s
          else (case else_s of
                  None \<Rightarrow> Done s
                | Some b \<Rightarrow> if b \<noteq> [] then eval_block h d b s else Done s))"
| "eval_stmt h d (RepeatStmt start stop body) s =
     (case eval_expr h (env s) start of
        Inl e \<Rightarrow> Raise e s
      | Inr lo \<Rightarrow>
          (case eval_expr h (env s) stop of
             Inl e \<Rightarrow> Raise e s
           | Inr hi \<Rightarrow>
               (case hi of
                  VInt hi' \<Rightarrow>
                    (case lo of
                       VInt lo' \<Rightarrow> eval_range h d body lo' (hi' + 1) s
                     | _ \<Rightarrow> Raise TypeError s)
                | _ \<Rightarrow> Raise TypeError s)))"
| "eval_stmt h d (MakeStmt name args) s =
     (case env s ''__recipes__'' of
        None \<Rightarrow> Raise KeyError s
      | Some (VRecipes rs) \<Rightarrow>
          (case map_of rs name of
             None \<Rightarrow> Raise (NameError_recipe name) s
           | Some (params, body) \<Rightarrow>
               if length params \<noteq> length args
               then Raise (TypeError_args name (length params) (length args)) s
               else
                 (case bind_args h (env s) (zip params args)
                         [''__recipes__'' \<mapsto> VRecipes rs] of
                    Inl e \<Rightarrow> Raise e s
                  | Inr local \<Rightarrow>
                      (case d of
                         0 \<Rightarrow> Raise RecursionError s
                       | Suc d' \<Rightarrow>
                           (case eval_block h d' body (s\<lparr>env := local\<rparr>) of
                              Done s' \<Rightarrow> Done (s'\<lparr>env := env s\<rparr>)
                            | Raise e s' \<Rightarrow> Raise e (s'\<lparr>env := env s\<rparr>)))))
      | Some (VStr r) \<Rightarrow>
          if str_contains r name then Raise TypeError s else Raise (NameError_recipe name) s
      | Some _ \<Rightarrow> Raise TypeError s)"
| "eval_block h d [] s = Done s"
| "eval_block h d (x # xs) s =
     (case eval_stmt h d x s of
        Done s' \<Rightarrow> eval_block h d xs s'
      | Raise e s' \<Rightarrow> Raise e s')"
| "eval_range h d body i stop s =
     (if i < stop then
        (case eval_block h d body (s\<lparr>env := (env s)(''i'' \<mapsto> VInt i)\<rparr>) of
           Done s' \<Rightarrow> eval_range h d body (i + 1) stop s'
         | Raise e s' \<Rightarrow> Raise e s')
      else Done s)"
  by pat_completeness auto
termination
  apply (relation "inv_image (less_than <*lex*> less_than <*lex*> less_than)
      (\<lambda>x. case x of
        Inl (h, d, st, s) \<Rightarrow> (d, size st, 0)
      | Inr (Inl (h, d, b, s)) \<Rightarrow> (d, size_list size b, 0)
      | Inr (Inr (h, d, b, i, stop, s)) \<Rightarrow> (d, size_list size b, Suc (nat (stop - i))))")
  apply auto
  done

declare eval_range.simps [simp del]

text \<open>
  \<^verbatim>\<open>RecipeDef.eval\<close> stores \<^verbatim>\<open>(params, body)\<close> under the recipe's name in the dictionary
  \<^verbatim>\<open>env['__recipes__']\<close>: a name already there keeps its place and gets the new entry.
\<close>

fun dict_set :: "string \<Rightarrow> 'v \<Rightarrow> (string \<times> 'v) list \<Rightarrow> (string \<times> 'v) list" where
  "dict_set k v [] = [(k, v)]"
| "dict_set k v ((k', v') # kvs) = (if k' = k then (k, v) # kvs else (k', v') # dict_set k v kvs)"

fun eval_recipe :: "recipe_def \<Rightarrow> env \<Rightarrow> error + env" where
  "eval_recipe (RecipeDef name params body) en =
     (case en ''__recipes__'' of
        None \<Rightarrow> Inl KeyError
      | Some (VRecipes rs) \<Rightarrow> Inr (en(''__recipes__'' \<mapsto> VRecipes (dict_set name (params, body) rs)))
      | Some _ \<Rightarrow> Inl TypeError)"

fun eval_recipes :: "recipe_def list \<Rightarrow> env \<Rightarrow> error + env" where
  "eval_recipes [] en = Inr en"
| "eval_recipes (r # rs) en =
     (case eval_recipe r en of Inl e \<Rightarrow> Inl e | Inr en' \<Rightarrow> eval_recipes rs en')"

text \<open>
  \<^verbatim>\<open>Program.eval\<close>, on the lines \<open>lines\<close> of standard input.
\<close>

fun eval_program :: "host \<Rightarrow> nat \<Rightarrow> program \<Rightarrow> string list \<Rightarrow> result" where
  "eval_program h d (Program recipes main) lines =
     (let s0 = \<lparr>env = [''__recipes__'' \<mapsto> VRecipes []], out = [], inp = lines\<rparr> in
      case eval_recipes recipes (env s0) of
        Inl e \<Rightarrow> Raise e s0
      | Inr en \<Rightarrow> eval_block h d main (s0\<lparr>env := en\<rparr>))"

section \<open>The parser\<close>

text \<open>
  \<^verbatim>\<open>Parser\<close> holds the token list and the position \<^verbatim>\<open>pos\<close>; the model passes the tokens
  from \<^verbatim>\<open>pos\<close> on, so \<^verbatim>\<open>self.pos += 1\<close> is the tail of the list. A parsing method returns its
  node and the tokens left, or the exception it raises. \<^verbatim>\<open>cur\<close> past the last token is
  Python's \<^verbatim>\<open>IndexError\<close>. The host's stack is taken to have room for the nesting of
  parentheses and blocks in the source text: the parsing methods have no
  \<^verbatim>\<open>RecursionError\<close> case.
\<close>

definition cur :: "token list \<Rightarrow> error + token" where
  "cur ts = (case ts of [] \<Rightarrow> Inl IndexError | t # rest \<Rightarrow> Inr t)"

definition eat :: "string \<Rightarrow> val option \<Rightarrow> token list \<Rightarrow> error + token \<times> token list" where
  "eat ty tval ts =
     (case cur ts of
        Inl e \<Rightarrow> Inl e
      | Inr tok \<Rightarrow>
          if ttype tok = ty \<and> (tval = None \<or> Some (tvalue tok) = tval)
          then Inr (tok, tl ts)
          else Inl (SyntaxError_expected ty tval tok))"

definition bindE :: "error + 'a \<Rightarrow> ('a \<Rightarrow> error + 'b) \<Rightarrow> error + 'b" where
  "bindE m f = (case m of Inl e \<Rightarrow> Inl e | Inr x \<Rightarrow> f x)"

lemma bindE_cong [fundef_cong]:
  "m = m' \<Longrightarrow> (\<And>x. m' = Inr x \<Longrightarrow> f x = f' x) \<Longrightarrow> bindE m f = bindE m' f'"
  by (auto simp: bindE_def split: sum.splits)

lemma bindE_Inr: "bindE m f = Inr y \<longleftrightarrow> (\<exists>x. m = Inr x \<and> f x = Inr y)"
  by (auto simp: bindE_def split: sum.splits)

function parse_expr :: "token list \<Rightarrow> error + expr \<times> token list"
  and parse_eq :: "token list \<Rightarrow> error + expr \<times> token list"
  and parse_eq_loop :: "expr \<Rightarrow> token list \<Rightarrow> error + expr \<times> token list"
  and parse_add :: "token list \<Rightarrow> error + expr \<times> token list"
  and parse_add_loop :: "expr \<Rightarrow> token list \<Rightarrow> error + expr \<times> token list"
  and parse_mod :: "token list \<Rightarrow> error + expr \<times> token list"
  and parse_mod_loop :: "expr \<Rightarrow> token list \<Rightarrow> error + expr \<times> token list"
  and parse_primary :: "token list \<Rightarrow> error + expr \<times> token list"
where
  "parse_expr ts = parse_eq ts"
| "parse_eq ts = bindE (parse_add ts) (\<lambda>(node, ts1). parse_eq_loop node ts1)"
| "parse_eq_loop node ts =
     bindE (cur ts) (\<lambda>t.
       if ttype t = ''OP'' \<and> tvalue t = VStr ''=='' then
         bindE (eat ''OP'' None ts) (\<lambda>(optok, ts1).
         bindE (parse_add ts1) (\<lambda>(right, ts2).
         parse_eq_loop (BinOp node (tstr optok) right) ts2))
       else Inr (node, ts))"
| "parse_add ts = bindE (parse_mod ts) (\<lambda>(node, ts1). parse_add_loop node ts1)"
| "parse_add_loop node ts =
     bindE (cur ts) (\<lambda>t.
       if ttype t = ''OP'' \<and> tvalue t = VStr ''+'' then
         bindE (eat ''OP'' None ts) (\<lambda>(optok, ts1).
         bindE (parse_mod ts1) (\<lambda>(right, ts2).
         parse_add_loop (BinOp node (tstr optok) right) ts2))
       else Inr (node, ts))"
| "parse_mod ts = bindE (parse_primary ts) (\<lambda>(node, ts1). parse_mod_loop node ts1)"
| "parse_mod_loop node ts =
     bindE (cur ts) (\<lambda>t.
       if ttype t = ''OP'' \<and> tvalue t = VStr ''%'' then
         bindE (eat ''OP'' None ts) (\<lambda>(optok, ts1).
         bindE (parse_primary ts1) (\<lambda>(right, ts2).
         parse_mod_loop (BinOp node (tstr optok) right) ts2))
       else Inr (node, ts))"
| "parse_primary ts =
     bindE (cur ts) (\<lambda>t.
       case t of
         NUMBER n \<Rightarrow> bindE (eat ''NUMBER'' None ts) (\<lambda>(u, ts1). Inr (Number n, ts1))
       | STRING s \<Rightarrow> bindE (eat ''STRING'' None ts) (\<lambda>(u, ts1). Inr (String s, ts1))
       | ID x \<Rightarrow> bindE (eat ''ID'' None ts) (\<lambda>(u, ts1). Inr (Var x, ts1))
       | _ \<Rightarrow>
           if tvalue t = VStr ''('' then
             bindE (eat ''('' None ts) (\<lambda>(u, ts1).
             bindE (parse_expr ts1) (\<lambda>(node, ts2).
             bindE (eat '')'' None ts2) (\<lambda>(u, ts3).
             Inr (node, ts3))))
           else Inl (SyntaxError_token t))"
  by pat_completeness auto


lemma eat_Inr: "eat ty v ts = Inr (t, ts') \<Longrightarrow> ts = t # ts'"
  by (auto simp: eat_def cur_def split: list.splits if_splits)

lemma eat_length: "eat ty v ts = Inr (t, ts') \<Longrightarrow> length ts' < length ts"
  by (auto dest: eat_Inr)

lemmas parse_expr_dom_induct =
  parse_expr_parse_eq_parse_eq_loop_parse_add_parse_add_loop_parse_mod_parse_mod_loop_parse_primary.pinduct

lemma parse_expr_dom_length:
  "parse_expr_parse_eq_parse_eq_loop_parse_add_parse_add_loop_parse_mod_parse_mod_loop_parse_primary_dom (Inl (Inl (Inl ts1)))
     \<Longrightarrow> (\<forall>e r. parse_expr ts1 = Inr (e, r) \<longrightarrow> length r < length ts1)"
  "parse_expr_parse_eq_parse_eq_loop_parse_add_parse_add_loop_parse_mod_parse_mod_loop_parse_primary_dom (Inl (Inl (Inr ts2)))
     \<Longrightarrow> (\<forall>e r. parse_eq ts2 = Inr (e, r) \<longrightarrow> length r < length ts2)"
  "parse_expr_parse_eq_parse_eq_loop_parse_add_parse_add_loop_parse_mod_parse_mod_loop_parse_primary_dom (Inl (Inr (Inl (n3, ts3))))
     \<Longrightarrow> (\<forall>e r. parse_eq_loop n3 ts3 = Inr (e, r) \<longrightarrow> length r \<le> length ts3)"
  "parse_expr_parse_eq_parse_eq_loop_parse_add_parse_add_loop_parse_mod_parse_mod_loop_parse_primary_dom (Inl (Inr (Inr ts4)))
     \<Longrightarrow> (\<forall>e r. parse_add ts4 = Inr (e, r) \<longrightarrow> length r < length ts4)"
  "parse_expr_parse_eq_parse_eq_loop_parse_add_parse_add_loop_parse_mod_parse_mod_loop_parse_primary_dom (Inr (Inl (Inl (n5, ts5))))
     \<Longrightarrow> (\<forall>e r. parse_add_loop n5 ts5 = Inr (e, r) \<longrightarrow> length r \<le> length ts5)"
  "parse_expr_parse_eq_parse_eq_loop_parse_add_parse_add_loop_parse_mod_parse_mod_loop_parse_primary_dom (Inr (Inl (Inr ts6)))
     \<Longrightarrow> (\<forall>e r. parse_mod ts6 = Inr (e, r) \<longrightarrow> length r < length ts6)"
  "parse_expr_parse_eq_parse_eq_loop_parse_add_parse_add_loop_parse_mod_parse_mod_loop_parse_primary_dom (Inr (Inr (Inl (n7, ts7))))
     \<Longrightarrow> (\<forall>e r. parse_mod_loop n7 ts7 = Inr (e, r) \<longrightarrow> length r \<le> length ts7)"
  "parse_expr_parse_eq_parse_eq_loop_parse_add_parse_add_loop_parse_mod_parse_mod_loop_parse_primary_dom (Inr (Inr (Inr ts8)))
     \<Longrightarrow> (\<forall>e r. parse_primary ts8 = Inr (e, r) \<longrightarrow> length r < length ts8)"
proof (induct rule: parse_expr_dom_induct)
  case (1 ts)
  then show ?case by (simp add: parse_expr.psimps)
next
  case (2 ts)
  then show ?case
    by (fastforce simp: parse_eq.psimps bindE_def split: sum.splits prod.splits)
next
  case (3 node ts)
  then show ?case
    by (fastforce simp: parse_eq_loop.psimps bindE_def dest: eat_length split: sum.splits prod.splits if_splits)
next
  case (4 ts)
  then show ?case
    by (fastforce simp: parse_add.psimps bindE_def split: sum.splits prod.splits)
next
  case (5 node ts)
  then show ?case
    by (fastforce simp: parse_add_loop.psimps bindE_def dest: eat_length split: sum.splits prod.splits if_splits)
next
  case (6 ts)
  then show ?case
    by (fastforce simp: parse_mod.psimps bindE_def split: sum.splits prod.splits)
next
  case (7 node ts)
  then show ?case
    by (fastforce simp: parse_mod_loop.psimps bindE_def dest: eat_length split: sum.splits prod.splits if_splits)
next
  case (8 ts)
  then show ?case
    by (fastforce simp: parse_primary.psimps bindE_def dest: eat_length split: sum.splits prod.splits if_splits token.splits)
qed

termination parse_expr
  apply (relation "inv_image (less_than <*lex*> less_than)
      (\<lambda>x. case x of
         Inl (Inl (Inl ts)) \<Rightarrow> (length ts, 7)
       | Inl (Inl (Inr ts)) \<Rightarrow> (length ts, 6)
       | Inl (Inr (Inl (n, ts))) \<Rightarrow> (length ts, 0)
       | Inl (Inr (Inr ts)) \<Rightarrow> (length ts, 4)
       | Inr (Inl (Inl (n, ts))) \<Rightarrow> (length ts, 0)
       | Inr (Inl (Inr ts)) \<Rightarrow> (length ts, 2)
       | Inr (Inr (Inl (n, ts))) \<Rightarrow> (length ts, 0)
       | Inr (Inr (Inr ts)) \<Rightarrow> (length ts, 1))")
  apply (auto dest!: eat_length)
       apply (drule (1) parse_expr_dom_length(4) [rule_format], simp)
      apply (drule (1) parse_expr_dom_length(4) [rule_format], simp)
     apply (drule (1) parse_expr_dom_length(6) [rule_format], simp)
    apply (drule (1) parse_expr_dom_length(6) [rule_format], simp)
   apply (drule (1) parse_expr_dom_length(8) [rule_format], simp)
  apply (drule (1) parse_expr_dom_length(8) [rule_format], simp)
  done



declare parse_expr.simps [simp del] parse_eq.simps [simp del] parse_eq_loop.simps [simp del]
  parse_add.simps [simp del] parse_add_loop.simps [simp del] parse_mod.simps [simp del]
  parse_mod_loop.simps [simp del] parse_primary.simps [simp del]

lemma parse_expr_length:
  "parse_expr ts1 = Inr (e1, r1) \<Longrightarrow> length r1 < length ts1"
  "parse_eq ts2 = Inr (e2, r2) \<Longrightarrow> length r2 < length ts2"
  "parse_eq_loop n3 ts3 = Inr (e3, r3) \<Longrightarrow> length r3 \<le> length ts3"
  "parse_add ts4 = Inr (e4, r4) \<Longrightarrow> length r4 < length ts4"
  "parse_add_loop n5 ts5 = Inr (e5, r5) \<Longrightarrow> length r5 \<le> length ts5"
  "parse_mod ts6 = Inr (e6, r6) \<Longrightarrow> length r6 < length ts6"
  "parse_mod_loop n7 ts7 = Inr (e7, r7) \<Longrightarrow> length r7 \<le> length ts7"
  "parse_primary ts8 = Inr (e8, r8) \<Longrightarrow> length r8 < length ts8"
proof (induct ts1 and ts2 and n3 ts3 and ts4 and n5 ts5 and ts6 and n7 ts7 and ts8
    arbitrary: e1 r1 and e2 r2 and e3 r3 and e4 r4 and e5 r5 and e6 r6 and e7 r7 and e8 r8
    rule: parse_expr_parse_eq_parse_eq_loop_parse_add_parse_add_loop_parse_mod_parse_mod_loop_parse_primary.induct)
  case (1 ts)
  then show ?case by (simp add: parse_expr.simps)
next
  case (2 ts)
  then show ?case
    by (fastforce simp: parse_eq.simps bindE_def split: sum.splits prod.splits)
next
  case (3 node ts)
  then show ?case
    by (fastforce simp: parse_eq_loop.simps [of node ts] bindE_def dest: eat_length split: sum.splits prod.splits if_splits)
next
  case (4 ts)
  then show ?case
    by (fastforce simp: parse_add.simps bindE_def split: sum.splits prod.splits)
next
  case (5 node ts)
  then show ?case
    by (fastforce simp: parse_add_loop.simps [of node ts] bindE_def dest: eat_length split: sum.splits prod.splits if_splits)
next
  case (6 ts)
  then show ?case
    by (fastforce simp: parse_mod.simps bindE_def split: sum.splits prod.splits)
next
  case (7 node ts)
  then show ?case
    by (fastforce simp: parse_mod_loop.simps [of node ts] bindE_def dest: eat_length split: sum.splits prod.splits if_splits)
next
  case (8 ts)
  then show ?case
    by (fastforce simp: parse_primary.simps [of ts] bindE_def dest: eat_length split: sum.splits prod.splits if_splits token.splits)
qed


text \<open>
  \<^verbatim>\<open>str.lower\<close> on the ASCII letters; source text is taken to be ASCII.
\<close>

definition lower_char :: "char \<Rightarrow> char" where
  "lower_char c =
     (case map_of (zip ''ABCDEFGHIJKLMNOPQRSTUVWXYZ'' ''abcdefghijklmnopqrstuvwxyz'') c of
        Some l \<Rightarrow> l
      | None \<Rightarrow> c)"

definition lower :: "string \<Rightarrow> string" where
  "lower s = map lower_char s"

definition parse_decl :: "token list \<Rightarrow> error + stmt \<times> token list" where
  "parse_decl ts =
     bindE (eat ''ID'' None ts) (\<lambda>(u, ts1).
     bindE (eat ''ID'' None ts1) (\<lambda>(name, ts2).
     bindE (eat '':'' None ts2) (\<lambda>(u, ts3).
     bindE (eat ''ID'' None ts3) (\<lambda>(t, ts4).
     bindE (eat '';'' None ts4) (\<lambda>(u, ts5).
     Inr (IngredientDecl (tstr name) (tstr t), ts5))))))"

definition parse_mix :: "token list \<Rightarrow> error + stmt \<times> token list" where
  "parse_mix ts =
     bindE (eat ''ID'' None ts) (\<lambda>(u, ts1).
     bindE (parse_expr ts1) (\<lambda>(ex, ts2).
     bindE (eat ''ID'' None ts2) (\<lambda>(u, ts3).
     bindE (eat ''ID'' None ts3) (\<lambda>(targ, ts4).
     bindE (eat '';'' None ts4) (\<lambda>(u, ts5).
     Inr (MixStmt ex (tstr targ), ts5))))))"

definition parse_serve :: "token list \<Rightarrow> error + stmt \<times> token list" where
  "parse_serve ts =
     bindE (eat ''ID'' None ts) (\<lambda>(u, ts1).
     bindE (parse_expr ts1) (\<lambda>(ex, ts2).
     bindE (eat '';'' None ts2) (\<lambda>(u, ts3).
     Inr (ServeStmt ex, ts3))))"

definition parse_ask :: "token list \<Rightarrow> error + stmt \<times> token list" where
  "parse_ask ts =
     bindE (eat ''ID'' None ts) (\<lambda>(u, ts1).
     bindE (parse_expr ts1) (\<lambda>(prompt, ts2).
     bindE (eat ''ID'' None ts2) (\<lambda>(u, ts3).
     bindE (eat ''ID'' None ts3) (\<lambda>(name, ts4).
     bindE (eat '';'' None ts4) (\<lambda>(u, ts5).
     Inr (AskStmt prompt (tstr name), ts5))))))"

function parse_args_loop :: "expr list \<Rightarrow> token list \<Rightarrow> error + expr list \<times> token list" where
  "parse_args_loop args ts =
     bindE (cur ts) (\<lambda>t.
       if tvalue t = VStr '','' then
         bindE (eat '','' None ts) (\<lambda>(u, ts1).
         bindE (parse_expr ts1) (\<lambda>(a, ts2).
         parse_args_loop (args @ [a]) ts2))
       else Inr (args, ts))"
  by pat_completeness auto
termination
  by (relation "measure (\<lambda>(args, ts). length ts)")
    (auto dest!: eat_length parse_expr_length(1))

declare parse_args_loop.simps [simp del]

definition parse_make :: "token list \<Rightarrow> error + stmt \<times> token list" where
  "parse_make ts =
     bindE (eat ''ID'' None ts) (\<lambda>(u, ts1).
     bindE (eat ''ID'' None ts1) (\<lambda>(name, ts2).
     bindE (eat ''('' None ts2) (\<lambda>(u, ts3).
     bindE (cur ts3) (\<lambda>t.
     bindE (if ttype t \<in> {''NUMBER'', ''STRING'', ''ID'', ''(''}
            then bindE (parse_expr ts3) (\<lambda>(a, ts4). parse_args_loop [a] ts4)
            else Inr ([], ts3)) (\<lambda>(args, ts5).
     bindE (eat '')'' None ts5) (\<lambda>(u, ts6).
     bindE (eat '';'' None ts6) (\<lambda>(u, ts7).
     Inr (MakeStmt (tstr name) args, ts7))))))))"

function parse_stmt :: "token list \<Rightarrow> error + stmt \<times> token list"
  and parse_if :: "token list \<Rightarrow> error + stmt \<times> token list"
  and parse_repeat :: "token list \<Rightarrow> error + stmt \<times> token list"
  and parse_block :: "token list \<Rightarrow> error + stmt list \<times> token list"
  and parse_block_loop :: "stmt list \<Rightarrow> token list \<Rightarrow> error + stmt list \<times> token list"
where
  "parse_stmt ts =
     bindE (cur ts) (\<lambda>tok.
       if ttype tok = ''ID'' then
         (let kw = lower (tstr tok) in
          if kw \<in> {''mix'', ''fold''} then parse_mix ts
          else if kw = ''serve'' then parse_serve ts
          else if kw = ''ask'' then parse_ask ts
          else if kw = ''if'' then parse_if ts
          else if kw = ''repeat'' then parse_repeat ts
          else if kw = ''make'' then parse_make ts
          else if kw = ''ingredient'' then parse_decl ts
          else Inl (SyntaxError_statement tok))
       else Inl (SyntaxError_statement tok))"
| "parse_if ts =
     bindE (eat ''ID'' None ts) (\<lambda>(u, ts1).
     bindE (eat ''('' None ts1) (\<lambda>(u, ts2).
     bindE (parse_expr ts2) (\<lambda>(cond, ts3).
     bindE (eat '')'' None ts3) (\<lambda>(u, ts4).
     bindE (eat ''ID'' None ts4) (\<lambda>(u, ts5).
     bindE (parse_block ts5) (\<lambda>(then_b, ts6).
     bindE (cur ts6) (\<lambda>t.
       if ttype t = ''ID'' \<and> lower (tstr t) = ''else'' then
         bindE (eat ''ID'' None ts6) (\<lambda>(u, ts7).
         bindE (parse_block ts7) (\<lambda>(else_b, ts8).
         Inr (IfStmt cond then_b (Some else_b), ts8)))
       else Inr (IfStmt cond then_b None, ts6))))))))"
| "parse_repeat ts =
     bindE (eat ''ID'' None ts) (\<lambda>(u, ts1).
     bindE (parse_expr ts1) (\<lambda>(start, ts2).
     bindE (eat ''ID'' None ts2) (\<lambda>(u, ts3).
     bindE (parse_expr ts3) (\<lambda>(stop, ts4).
     bindE (parse_block ts4) (\<lambda>(body, ts5).
     Inr (RepeatStmt start stop body, ts5))))))"
| "parse_block ts =
     bindE (eat ''{'' None ts) (\<lambda>(u, ts1).
     bindE (parse_block_loop [] ts1) (\<lambda>(stmts, ts2).
     bindE (eat ''}'' None ts2) (\<lambda>(u, ts3).
     Inr (stmts, ts3))))"
| "parse_block_loop stmts ts =
     bindE (cur ts) (\<lambda>t.
       if tvalue t \<noteq> VStr ''}'' then
         bindE (parse_stmt ts) (\<lambda>(s, ts1).
         parse_block_loop (stmts @ [s]) ts1)
       else Inr (stmts, ts))"
  by pat_completeness auto



lemma parse_args_loop_length:
  "parse_args_loop args ts = Inr (as, r) \<Longrightarrow> length r \<le> length ts"
proof (induct args ts arbitrary: as r rule: parse_args_loop.induct)
  case (1 args ts)
  then show ?case
    by (fastforce simp: parse_args_loop.simps [of args ts] bindE_Inr
        dest: eat_length parse_expr_length(1) split: if_splits)
qed

lemma parse_simple_length:
  "parse_decl ts = Inr (s, r) \<Longrightarrow> length r < length ts"
  "parse_mix ts = Inr (s, r) \<Longrightarrow> length r < length ts"
  "parse_serve ts = Inr (s, r) \<Longrightarrow> length r < length ts"
  "parse_ask ts = Inr (s, r) \<Longrightarrow> length r < length ts"
  "parse_make ts = Inr (s, r) \<Longrightarrow> length r < length ts"
      apply (auto simp: parse_decl_def bindE_Inr dest!: eat_length)[1]
     apply (auto simp: parse_mix_def bindE_Inr dest!: eat_length parse_expr_length(1))[1]
    apply (auto simp: parse_serve_def bindE_Inr dest!: eat_length parse_expr_length(1))[1]
   apply (auto simp: parse_ask_def bindE_Inr dest!: eat_length parse_expr_length(1))[1]
  apply (auto simp: parse_make_def bindE_Inr dest!: eat_length parse_expr_length(1) parse_args_loop_length split: if_splits)[1]
  done

lemma parse_stmt_dom_length:
  "parse_stmt_parse_if_parse_repeat_parse_block_parse_block_loop_dom (Inl (Inl ts1))
     \<Longrightarrow> (\<forall>e r. parse_stmt ts1 = Inr (e, r) \<longrightarrow> length r < length ts1)"
  "parse_stmt_parse_if_parse_repeat_parse_block_parse_block_loop_dom (Inl (Inr ts2))
     \<Longrightarrow> (\<forall>e r. parse_if ts2 = Inr (e, r) \<longrightarrow> length r < length ts2)"
  "parse_stmt_parse_if_parse_repeat_parse_block_parse_block_loop_dom (Inr (Inl ts3))
     \<Longrightarrow> (\<forall>e r. parse_repeat ts3 = Inr (e, r) \<longrightarrow> length r < length ts3)"
  "parse_stmt_parse_if_parse_repeat_parse_block_parse_block_loop_dom (Inr (Inr (Inl ts4)))
     \<Longrightarrow> (\<forall>e r. parse_block ts4 = Inr (e, r) \<longrightarrow> length r < length ts4)"
  "parse_stmt_parse_if_parse_repeat_parse_block_parse_block_loop_dom (Inr (Inr (Inr (n5, ts5))))
     \<Longrightarrow> (\<forall>e r. parse_block_loop n5 ts5 = Inr (e, r) \<longrightarrow> length r \<le> length ts5)"
proof (induct rule: parse_stmt_parse_if_parse_repeat_parse_block_parse_block_loop.pinduct)
  case (1 ts)
  show ?case
  proof (intro allI impI)
    fix e r
    assume a: "parse_stmt ts = Inr (e, r)"
    from a "1.hyps"(1) obtain tok where c: "cur ts = Inr tok" and t: "ttype tok = ''ID''"
      by (auto simp: parse_stmt.psimps bindE_Inr split: if_splits)
    let ?kw = "lower (tstr tok)"
    consider (simple) "parse_decl ts = Inr (e, r) \<or> parse_mix ts = Inr (e, r) \<or>
          parse_serve ts = Inr (e, r) \<or> parse_ask ts = Inr (e, r) \<or> parse_make ts = Inr (e, r)"
      | (if_s) "?kw \<notin> {''mix'', ''fold''}" "?kw \<noteq> ''serve''" "?kw \<noteq> ''ask''"
          "?kw = ''if''" "parse_if ts = Inr (e, r)"
      | (repeat_s) "?kw \<notin> {''mix'', ''fold''}" "?kw \<noteq> ''serve''" "?kw \<noteq> ''ask''"
          "?kw \<noteq> ''if''" "?kw = ''repeat''" "parse_repeat ts = Inr (e, r)"
      using a "1.hyps"(1) c t
      by (simp add: parse_stmt.psimps bindE_def Let_def split: if_splits)
    then show "length r < length ts"
    proof cases
      case simple
      then show ?thesis by (auto dest: parse_simple_length)
    next
      case if_s
      from "1.hyps"(2) [OF c t refl if_s(1-4)] if_s(5) show ?thesis by blast
    next
      case repeat_s
      from "1.hyps"(3) [OF c t refl repeat_s(1-5)] repeat_s(6) show ?thesis by blast
    qed
  qed
next
  case (2 ts)
  show ?case
  proof (intro allI impI)
    fix e r
    assume a: "parse_if ts = Inr (e, r)"
    from a "2.hyps"(1) obtain u1 ts1 u2 ts2 cond ts3 u4 ts4 u5 ts5 then_b ts6 t where
      e1: "eat ''ID'' None ts = Inr (u1, ts1)" and
      e2: "eat ''('' None ts1 = Inr (u2, ts2)" and
      pe: "parse_expr ts2 = Inr (cond, ts3)" and
      e4: "eat '')'' None ts3 = Inr (u4, ts4)" and
      e5: "eat ''ID'' None ts4 = Inr (u5, ts5)" and
      pb: "parse_block ts5 = Inr (then_b, ts6)" and
      c: "cur ts6 = Inr t" and
      rest: "(if ttype t = ''ID'' \<and> lower (tstr t) = ''else'' then
               bindE (eat ''ID'' None ts6) (\<lambda>(u, ts7).
               bindE (parse_block ts7) (\<lambda>(else_b, ts8).
               Inr (IfStmt cond then_b (Some else_b), ts8)))
             else Inr (IfStmt cond then_b None, ts6)) = Inr (e, r)"
      by (simp add: parse_if.psimps bindE_Inr) blast
    have l5: "length ts5 < length ts"
      using eat_length [OF e1] eat_length [OF e2] parse_expr_length(1) [OF pe]
        eat_length [OF e4] eat_length [OF e5] by simp
    have l6: "length ts6 < length ts5"
      using "2.hyps"(2) [OF e1 refl e2 refl pe refl e4 refl e5 refl] pb by blast
    show "length r < length ts"
    proof (cases "ttype t = ''ID'' \<and> lower (tstr t) = ''else''")
      case True
      with rest obtain u7 ts7 else_b where
        e7: "eat ''ID'' None ts6 = Inr (u7, ts7)" and
        pb2: "parse_block ts7 = Inr (else_b, r)"
        by (auto simp: bindE_Inr)
      have "length r < length ts7"
        using "2.hyps"(3) [OF e1 refl e2 refl pe refl e4 refl e5 refl pb refl c True e7 refl] pb2
        by blast
      with eat_length [OF e7] l5 l6 show ?thesis by simp
    next
      case False
      with rest l5 l6 show ?thesis by auto
    qed
  qed
next
  case (3 ts)
  show ?case
  proof (intro allI impI)
    fix e r
    assume a: "parse_repeat ts = Inr (e, r)"
    from a "3.hyps"(1) obtain u1 ts1 start ts2 u3 ts3 stop ts4 body where
      e1: "eat ''ID'' None ts = Inr (u1, ts1)" and
      p1: "parse_expr ts1 = Inr (start, ts2)" and
      e3: "eat ''ID'' None ts2 = Inr (u3, ts3)" and
      p2: "parse_expr ts3 = Inr (stop, ts4)" and
      pb: "parse_block ts4 = Inr (body, r)"
      by (simp add: parse_repeat.psimps bindE_Inr) blast
    have "length r < length ts4"
      using "3.hyps"(2) [OF e1 refl p1 refl e3 refl p2 refl] pb by blast
    with eat_length [OF e1] parse_expr_length(1) [OF p1] eat_length [OF e3]
      parse_expr_length(1) [OF p2]
    show "length r < length ts" by simp
  qed
next
  case (4 ts)
  show ?case
  proof (intro allI impI)
    fix e r
    assume a: "parse_block ts = Inr (e, r)"
    from a "4.hyps"(1) obtain u1 ts1 ts2 u3 where
      e1: "eat ''{'' None ts = Inr (u1, ts1)" and
      pl: "parse_block_loop [] ts1 = Inr (e, ts2)" and
      e3: "eat ''}'' None ts2 = Inr (u3, r)"
      by (simp add: parse_block.psimps bindE_Inr) blast
    have "length ts2 \<le> length ts1"
      using "4.hyps"(2) [OF e1 refl] pl by blast
    with eat_length [OF e1] eat_length [OF e3]
    show "length r < length ts" by simp
  qed
next
  case (5 stmts ts)
  show ?case
  proof (intro allI impI)
    fix e r
    assume a: "parse_block_loop stmts ts = Inr (e, r)"
    from a "5.hyps"(1) obtain t where c: "cur ts = Inr t" and
      rest: "(if tvalue t \<noteq> VStr ''}'' then
               bindE (parse_stmt ts) (\<lambda>(s, ts1). parse_block_loop (stmts @ [s]) ts1)
             else Inr (stmts, ts)) = Inr (e, r)"
      by (simp add: parse_block_loop.psimps bindE_Inr) blast
    show "length r \<le> length ts"
    proof (cases "tvalue t \<noteq> VStr ''}''")
      case True
      with rest obtain s ts1 where ps: "parse_stmt ts = Inr (s, ts1)" and
        pl: "parse_block_loop (stmts @ [s]) ts1 = Inr (e, r)"
        by (auto simp: bindE_Inr)
      have "length ts1 < length ts" using "5.hyps"(2) [OF c True] ps by blast
      moreover have "length r \<le> length ts1"
        using "5.hyps"(3) [OF c True ps refl] pl by blast
      ultimately show ?thesis by simp
    next
      case False
      with rest show ?thesis by simp
    qed
  qed
qed


termination parse_stmt
  apply (relation "inv_image (less_than <*lex*> less_than)
      (\<lambda>x. case x of
         Inl (Inl ts) \<Rightarrow> (length ts, 2)
       | Inl (Inr ts) \<Rightarrow> (length ts, 1)
       | Inr (Inl ts) \<Rightarrow> (length ts, 1)
       | Inr (Inr (Inl ts)) \<Rightarrow> (length ts, 0)
       | Inr (Inr (Inr (n, ts))) \<Rightarrow> (length ts, 3))")
  apply (auto dest!: eat_length parse_expr_length(1))
   apply (drule (1) parse_stmt_dom_length(4) [rule_format], simp)
  apply (drule (1) parse_stmt_dom_length(1) [rule_format], simp)
  done


declare parse_stmt.simps [simp del] parse_if.simps [simp del] parse_repeat.simps [simp del]
  parse_block.simps [simp del] parse_block_loop.simps [simp del]

lemma parse_stmt_length_all:
  "(\<forall>e r. parse_stmt ts1 = Inr (e, r) \<longrightarrow> length r < length ts1)"
  "(\<forall>e r. parse_if ts2 = Inr (e, r) \<longrightarrow> length r < length ts2)"
  "(\<forall>e r. parse_repeat ts3 = Inr (e, r) \<longrightarrow> length r < length ts3)"
  "(\<forall>e r. parse_block ts4 = Inr (e, r) \<longrightarrow> length r < length ts4)"
  "(\<forall>e r. parse_block_loop n5 ts5 = Inr (e, r) \<longrightarrow> length r \<le> length ts5)"
proof (induct ts1 and ts2 and ts3 and ts4 and n5 ts5
    rule: parse_stmt_parse_if_parse_repeat_parse_block_parse_block_loop.induct)
  case (1 ts)
  show ?case
  proof (intro allI impI)
    fix e r
    assume a: "parse_stmt ts = Inr (e, r)"
    from a obtain tok where c: "cur ts = Inr tok" and t: "ttype tok = ''ID''"
      by (auto simp: parse_stmt.simps bindE_Inr split: if_splits)
    let ?kw = "lower (tstr tok)"
    consider (simple) "parse_decl ts = Inr (e, r) \<or> parse_mix ts = Inr (e, r) \<or>
          parse_serve ts = Inr (e, r) \<or> parse_ask ts = Inr (e, r) \<or> parse_make ts = Inr (e, r)"
      | (if_s) "?kw \<notin> {''mix'', ''fold''}" "?kw \<noteq> ''serve''" "?kw \<noteq> ''ask''"
          "?kw = ''if''" "parse_if ts = Inr (e, r)"
      | (repeat_s) "?kw \<notin> {''mix'', ''fold''}" "?kw \<noteq> ''serve''" "?kw \<noteq> ''ask''"
          "?kw \<noteq> ''if''" "?kw = ''repeat''" "parse_repeat ts = Inr (e, r)"
      using a c t
      by (simp add: parse_stmt.simps bindE_def Let_def split: if_splits)
    then show "length r < length ts"
    proof cases
      case simple
      then show ?thesis by (auto dest: parse_simple_length)
    next
      case if_s
      from "1.hyps"(1) [OF c t refl if_s(1-4)] if_s(5) show ?thesis by blast
    next
      case repeat_s
      from "1.hyps"(2) [OF c t refl repeat_s(1-5)] repeat_s(6) show ?thesis by blast
    qed
  qed
next
  case (2 ts)
  show ?case
  proof (intro allI impI)
    fix e r
    assume a: "parse_if ts = Inr (e, r)"
    from a obtain u1 ts1 u2 ts2 cond ts3 u4 ts4 u5 ts5 then_b ts6 t where
      e1: "eat ''ID'' None ts = Inr (u1, ts1)" and
      e2: "eat ''('' None ts1 = Inr (u2, ts2)" and
      pe: "parse_expr ts2 = Inr (cond, ts3)" and
      e4: "eat '')'' None ts3 = Inr (u4, ts4)" and
      e5: "eat ''ID'' None ts4 = Inr (u5, ts5)" and
      pb: "parse_block ts5 = Inr (then_b, ts6)" and
      c: "cur ts6 = Inr t" and
      rest: "(if ttype t = ''ID'' \<and> lower (tstr t) = ''else'' then
               bindE (eat ''ID'' None ts6) (\<lambda>(u, ts7).
               bindE (parse_block ts7) (\<lambda>(else_b, ts8).
               Inr (IfStmt cond then_b (Some else_b), ts8)))
             else Inr (IfStmt cond then_b None, ts6)) = Inr (e, r)"
      by (simp add: parse_if.simps bindE_Inr) blast
    have l5: "length ts5 < length ts"
      using eat_length [OF e1] eat_length [OF e2] parse_expr_length(1) [OF pe]
        eat_length [OF e4] eat_length [OF e5] by simp
    have l6: "length ts6 < length ts5"
      using "2.hyps"(1) [OF e1 refl e2 refl pe refl e4 refl e5 refl] pb by blast
    show "length r < length ts"
    proof (cases "ttype t = ''ID'' \<and> lower (tstr t) = ''else''")
      case True
      with rest obtain u7 ts7 else_b where
        e7: "eat ''ID'' None ts6 = Inr (u7, ts7)" and
        pb2: "parse_block ts7 = Inr (else_b, r)"
        by (auto simp: bindE_Inr)
      have "length r < length ts7"
        using "2.hyps"(2) [OF e1 refl e2 refl pe refl e4 refl e5 refl pb refl c True e7 refl] pb2
        by blast
      with eat_length [OF e7] l5 l6 show ?thesis by simp
    next
      case False
      with rest l5 l6 show ?thesis by auto
    qed
  qed
next
  case (3 ts)
  show ?case
  proof (intro allI impI)
    fix e r
    assume a: "parse_repeat ts = Inr (e, r)"
    from a obtain u1 ts1 start ts2 u3 ts3 stop ts4 body where
      e1: "eat ''ID'' None ts = Inr (u1, ts1)" and
      p1: "parse_expr ts1 = Inr (start, ts2)" and
      e3: "eat ''ID'' None ts2 = Inr (u3, ts3)" and
      p2: "parse_expr ts3 = Inr (stop, ts4)" and
      pb: "parse_block ts4 = Inr (body, r)"
      by (simp add: parse_repeat.simps bindE_Inr) blast
    have "length r < length ts4"
      using "3.hyps"(1) [OF e1 refl p1 refl e3 refl p2 refl] pb by blast
    with eat_length [OF e1] parse_expr_length(1) [OF p1] eat_length [OF e3]
      parse_expr_length(1) [OF p2]
    show "length r < length ts" by simp
  qed
next
  case (4 ts)
  show ?case
  proof (intro allI impI)
    fix e r
    assume a: "parse_block ts = Inr (e, r)"
    from a obtain u1 ts1 ts2 u3 where
      e1: "eat ''{'' None ts = Inr (u1, ts1)" and
      pl: "parse_block_loop [] ts1 = Inr (e, ts2)" and
      e3: "eat ''}'' None ts2 = Inr (u3, r)"
      by (simp add: parse_block.simps bindE_Inr) blast
    have "length ts2 \<le> length ts1"
      using "4.hyps"(1) [OF e1 refl] pl by blast
    with eat_length [OF e1] eat_length [OF e3]
    show "length r < length ts" by simp
  qed
next
  case (5 stmts ts)
  show ?case
  proof (intro allI impI)
    fix e r
    assume a: "parse_block_loop stmts ts = Inr (e, r)"
    from a obtain t where c: "cur ts = Inr t" and
      rest: "(if tvalue t \<noteq> VStr ''}'' then
               bindE (parse_stmt ts) (\<lambda>(s, ts1). parse_block_loop (stmts @ [s]) ts1)
             else Inr (stmts, ts)) = Inr (e, r)"
      by (simp add: parse_block_loop.simps bindE_Inr) blast
    show "length r \<le> length ts"
    proof (cases "tvalue t \<noteq> VStr ''}''")
      case True
      with rest obtain s ts1 where ps: "parse_stmt ts = Inr (s, ts1)" and
        pl: "parse_block_loop (stmts @ [s]) ts1 = Inr (e, r)"
        by (auto simp: bindE_Inr)
      have "length ts1 < length ts" using "5.hyps"(1) [OF c True] ps by blast
      moreover have "length r \<le> length ts1"
        using "5.hyps"(2) [OF c True ps refl] pl by blast
      ultimately show ?thesis by simp
    next
      case False
      with rest show ?thesis by simp
    qed
  qed
qed



lemma parse_stmt_length: "parse_stmt ts = Inr (s, r) \<Longrightarrow> length r < length ts"
  using parse_stmt_length_all(1) by blast

lemma parse_block_length: "parse_block ts = Inr (b, r) \<Longrightarrow> length r < length ts"
  using parse_stmt_length_all(4) by blast

function parse_params_loop :: "string list \<Rightarrow> token list \<Rightarrow> error + string list \<times> token list" where
  "parse_params_loop params ts =
     bindE (cur ts) (\<lambda>t.
       if tvalue t = VStr '','' then
         bindE (eat '','' None ts) (\<lambda>(u, ts1).
         bindE (eat ''ID'' None ts1) (\<lambda>(p, ts2).
         parse_params_loop (params @ [tstr p]) ts2))
       else Inr (params, ts))"
  by pat_completeness auto
termination
  by (relation "measure (\<lambda>(params, ts). length ts)") (auto dest!: eat_length)

declare parse_params_loop.simps [simp del]

lemma parse_params_loop_length:
  "parse_params_loop params ts = Inr (ps, r) \<Longrightarrow> length r \<le> length ts"
proof (induct params ts arbitrary: ps r rule: parse_params_loop.induct)
  case (1 params ts)
  then show ?case
    by (fastforce simp: parse_params_loop.simps [of params ts] bindE_Inr
        dest: eat_length split: if_splits)
qed

definition parse_recipe :: "token list \<Rightarrow> error + recipe_def \<times> token list" where
  "parse_recipe ts =
     bindE (eat ''ID'' None ts) (\<lambda>(u, ts1).
     bindE (eat ''ID'' None ts1) (\<lambda>(name, ts2).
     bindE (eat ''('' None ts2) (\<lambda>(u, ts3).
     bindE (cur ts3) (\<lambda>t.
     bindE (if ttype t = ''ID''
            then bindE (eat ''ID'' None ts3) (\<lambda>(p, ts4). parse_params_loop [tstr p] ts4)
            else Inr ([], ts3)) (\<lambda>(params, ts5).
     bindE (eat '')'' None ts5) (\<lambda>(u, ts6).
     bindE (parse_block ts6) (\<lambda>(body, ts7).
     Inr (RecipeDef (tstr name) params body, ts7))))))))"

lemma parse_recipe_length: "parse_recipe ts = Inr (rd, r) \<Longrightarrow> length r < length ts"
  by (auto simp: parse_recipe_def bindE_Inr
      dest!: eat_length parse_block_length parse_params_loop_length split: if_splits)

function parse_loop :: "recipe_def list \<Rightarrow> stmt list \<Rightarrow> token list \<Rightarrow> error + program" where
  "parse_loop recipes main ts =
     bindE (cur ts) (\<lambda>t.
       if ttype t \<noteq> ''EOF'' then
         (if ttype t = ''ID'' \<and> lower (tstr t) = ''recipe''
          then bindE (parse_recipe ts) (\<lambda>(r, ts1). parse_loop (recipes @ [r]) main ts1)
          else bindE (parse_stmt ts) (\<lambda>(s, ts1). parse_loop recipes (main @ [s]) ts1))
       else Inr (Program recipes main))"
  by pat_completeness auto
termination
  by (relation "measure (\<lambda>(recipes, main, ts). length ts)")
    (auto dest!: parse_recipe_length parse_stmt_length)

declare parse_loop.simps [simp del]

definition parse :: "token list \<Rightarrow> error + program" where
  "parse ts = parse_loop [] [] ts"

section \<open>Concrete runs\<close>

text \<open>
  A host and a starting state for the concrete runs below: a Python with no limit on
  the digits of \<^verbatim>\<open>str\<close> of an integer. No run below reaches one of the three functions
  of the host.
\<close>

definition sample_host :: host where
  "sample_host =
     \<lparr>int_of_str = (\<lambda>raw. None), str_format = (\<lambda>s v. Inl TypeError),
      str_recipes = (\<lambda>rs. ''{...}''), max_str_digits = 0\<rparr>"

lemma sample_host_max_str_digits [simp]: "max_str_digits sample_host = 0"
  by (simp add: sample_host_def)

text \<open>
  The same host with the limit CPython has by default from 3.11 on.
\<close>

definition cpython_default_host :: host where
  "cpython_default_host = sample_host\<lparr>max_str_digits := 4300\<rparr>"

definition start_state :: state where
  "start_state = \<lparr>env = Map.empty, out = [], inp = []\<rparr>"

fun state_of :: "result \<Rightarrow> state" where
  "state_of (Done s) = s"
| "state_of (Raise e s) = s"

definition demo_recipes :: recipes where
  "demo_recipes =
     [(''Foo'', [''y''],
        [MixStmt (BinOp (Var ''y'') ''+'' (Number 10)) ''x'', IngredientDecl ''z'' ''Number'',
         ServeStmt (Var ''x'')])]"

section \<open>Reference definitions from the specification\<close>


text \<open>
  The specification's "ordinary decimal form" of an integer: a minus sign when it is
  negative, then one or more decimal digits, with no leading zero but for the numeral
  \<^verbatim>\<open>0\<close>, whose value (most significant digit first) is its absolute value.
\<close>

definition spec_decimal_value :: "string \<Rightarrow> nat" where
  "spec_decimal_value ds = foldl (\<lambda>n c. 10 * n + (of_char c - 48)) 0 ds"

definition spec_is_decimal :: "string \<Rightarrow> int \<Rightarrow> bool" where
  "spec_is_decimal s i =
     (let ds = (if i < 0 then drop 1 s else s) in
      (i < 0 \<longrightarrow> take 1 s = ''-'') \<and>
      ds \<noteq> [] \<and>
      set ds \<subseteq> set ''0123456789'' \<and>
      (take 1 ds = ''0'' \<longrightarrow> ds = ''0'') \<and>
      int (spec_decimal_value ds) = \<bar>i\<bar>)"

text \<open>
  The values the amended C10 allows in an environment of a run whose table is \<open>rs\<close>:
  \<^verbatim>\<open>None\<close>, an integer, a string, or that table.
\<close>

definition val_ok :: "recipes \<Rightarrow> val \<Rightarrow> bool" where
  "val_ok rs v = (case v of VRecipes t \<Rightarrow> t = rs | _ \<Rightarrow> True)"

definition env_ok :: "recipes \<Rightarrow> env \<Rightarrow> bool" where
  "env_ok rs en = (\<forall>n v. en n = Some v \<longrightarrow> val_ok rs v)"

text \<open>
  The table the registration pass of \<^verbatim>\<open>Program.eval\<close> builds from the recipe definitions,
  starting from \<open>rs\<close>.
\<close>

fun registered :: "recipe_def list \<Rightarrow> recipes \<Rightarrow> recipes" where
  "registered [] rs = rs"
| "registered (RecipeDef name params body # rds) rs =
     registered rds (dict_set name (params, body) rs)"






text \<open>
  A result leaves the table bound, and is not "recipe not found" for a recipe of the
  table.
\<close>

definition kept :: "recipes \<Rightarrow> result \<Rightarrow> bool" where
  "kept rs res =
     (env (state_of res) ''__recipes__'' = Some (VRecipes rs) \<and>
      (\<forall>name s'. res = Raise (NameError_recipe name) s' \<longrightarrow> map_of rs name = None))"

text \<open>
  The expression grammar of the specification, one relation per nonterminal between a
  token list and the tree it stands for: \<^verbatim>\<open>Primary := NUMBER | STRING | ID | "(" Expr ")"\<close>,
  \<^verbatim>\<open>Mod := Primary ("%" Primary)*\<close>, \<^verbatim>\<open>Add := Mod ("+" Mod)*\<close>, \<^verbatim>\<open>Eq := Add ("==" Add)*\<close>,
  \<^verbatim>\<open>Expr := Eq\<close>, each chain associating to the left.
\<close>

inductive spec_Primary :: "token list \<Rightarrow> expr \<Rightarrow> bool"
  and spec_Mod :: "token list \<Rightarrow> expr \<Rightarrow> bool"
  and spec_Add :: "token list \<Rightarrow> expr \<Rightarrow> bool"
  and spec_Eq :: "token list \<Rightarrow> expr \<Rightarrow> bool"
where
  number: "spec_Primary [NUMBER n] (Number n)"
| string: "spec_Primary [STRING s] (String s)"
| ident: "spec_Primary [ID x] (Var x)"
| paren: "spec_Eq ts e \<Longrightarrow> spec_Primary (SYM CHR ''('' # ts @ [SYM CHR '')'']) e"
| mod_operand: "spec_Primary ts e \<Longrightarrow> spec_Mod ts e"
| mod_chain: "spec_Mod ts l \<Longrightarrow> spec_Primary ts' r \<Longrightarrow>
    spec_Mod (ts @ OP ''%'' # ts') (BinOp l ''%'' r)"
| add_operand: "spec_Mod ts e \<Longrightarrow> spec_Add ts e"
| add_chain: "spec_Add ts l \<Longrightarrow> spec_Mod ts' r \<Longrightarrow>
    spec_Add (ts @ OP ''+'' # ts') (BinOp l ''+'' r)"
| eq_operand: "spec_Add ts e \<Longrightarrow> spec_Eq ts e"
| eq_chain: "spec_Eq ts l \<Longrightarrow> spec_Add ts' r \<Longrightarrow>
    spec_Eq (ts @ OP ''=='' # ts') (BinOp l ''=='' r)"

section \<open>Properties of the evaluator\<close>

text \<open>
  C1, as amended. \<^verbatim>\<open>IfStmt.eval\<close> tests the condition value with Python's truth value: a
  non-zero integer and a non-empty string select the then-block; the integer 0 and the
  empty string select the else-block, and do nothing when there is none.
\<close>

theorem if_python_truth:
  assumes "eval_expr h (env s) c = Inr v"
  shows "((\<exists>n. v = VInt n \<and> n \<noteq> 0) \<or> (\<exists>x. v = VStr x \<and> x \<noteq> []) \<longrightarrow>
            eval_stmt h d (IfStmt c then_s else_s) s = eval_block h d then_s s)
       \<and> (v = VInt 0 \<or> v = VStr [] \<longrightarrow>
            eval_stmt h d (IfStmt c then_s else_s) s =
              (case else_s of None \<Rightarrow> Done s | Some b \<Rightarrow> eval_block h d b s))"
  using assms by (auto split: option.splits)

theorem if_python_truth_witness:
  "eval_stmt sample_host 0 (IfStmt (Number 7) [ServeStmt (String ''then'')] None) start_state
     = Done (start_state\<lparr>out := [Printed ''then'']\<rparr>)
   \<and> eval_stmt sample_host 0 (IfStmt (String ''no'') [ServeStmt (String ''then'')] None) start_state
     = Done (start_state\<lparr>out := [Printed ''then'']\<rparr>)
   \<and> eval_stmt sample_host 0 (IfStmt (Number 0) [ServeStmt (String ''then'')] None) start_state
     = Done start_state
   \<and> eval_stmt sample_host 0
        (IfStmt (String []) [ServeStmt (String ''then'')] (Some [ServeStmt (String ''else'')]))
        start_state
     = Done (start_state\<lparr>out := [Printed ''else'']\<rparr>)"
  using if_python_truth [of sample_host start_state "Number 7" "VInt 7" 0 "[ServeStmt (String ''then'')]" None]
    if_python_truth [of sample_host start_state "String ''no''" "VStr ''no''" 0 "[ServeStmt (String ''then'')]" None]
    if_python_truth [of sample_host start_state "Number 0" "VInt 0" 0 "[ServeStmt (String ''then'')]" None]
    if_python_truth [of sample_host start_state "String []" "VStr []" 0 "[ServeStmt (String ''then'')]"
      "Some [ServeStmt (String ''else'')]"]
  by (simp add: start_state_def)

text \<open>
  C1 as stated fails: with the empty string as condition the else-block runs, not the
  then-block.
\<close>

theorem if_empty_string_counterexample:
  "eval_stmt sample_host 0
     (IfStmt (String []) [ServeStmt (String ''then'')] (Some [ServeStmt (String ''else'')]))
     start_state
   = Done (start_state\<lparr>out := [Printed ''else'']\<rparr>)"
  by (simp add: start_state_def)

lemma digit_char_props:
  assumes "d < 10"
  shows "digit_char d \<in> set ''0123456789''"
    and "of_char (digit_char d) = 48 + d"
    and "digit_char d = CHR ''0'' \<longleftrightarrow> d = 0"
proof -
  from assms have "d = 0 \<or> d = 1 \<or> d = 2 \<or> d = 3 \<or> d = 4 \<or> d = 5
      \<or> d = 6 \<or> d = 7 \<or> d = 8 \<or> d = 9"
    by arith
  then consider "d = 0" | "d = 1" | "d = 2" | "d = 3" | "d = 4" | "d = 5"
    | "d = 6" | "d = 7" | "d = 8" | "d = 9"
    by blast
  then have "digit_char d \<in> set ''0123456789'' \<and> of_char (digit_char d) = 48 + d
      \<and> (digit_char d = CHR ''0'' \<longleftrightarrow> d = 0)"
    by cases (simp_all add: digit_char_def)
  then show "digit_char d \<in> set ''0123456789''"
    and "of_char (digit_char d) = 48 + d"
    and "digit_char d = CHR ''0'' \<longleftrightarrow> d = 0"
    by blast+
qed

lemma spec_decimal_value_snoc:
  "spec_decimal_value (ds @ [c]) = 10 * spec_decimal_value ds + (of_char c - 48)"
  by (simp add: spec_decimal_value_def)

lemma str_nat_decimal:
  "str_nat n \<noteq> [] \<and> set (str_nat n) \<subseteq> set ''0123456789''
   \<and> spec_decimal_value (str_nat n) = n \<and> (hd (str_nat n) = CHR ''0'' \<longrightarrow> n = 0)"
proof (induction n rule: str_nat.induct)
  case (1 n)
  show ?case
  proof (cases "n < 10")
    case True
    then have s: "str_nat n = [digit_char n]" by (simp add: str_nat.simps)
    show ?thesis
      unfolding s using digit_char_props [OF True]
      by (simp add: spec_decimal_value_def)
  next
    case False
    then have s: "str_nat n = str_nat (n div 10) @ [digit_char (n mod 10)]"
      by (simp add: str_nat.simps [of n])
    have m: "n mod 10 < 10" by simp
    from False have pos: "n div 10 \<noteq> 0" by simp
    note ih = "1.IH" [OF False]
    from ih pos have h: "hd (str_nat (n div 10)) \<noteq> CHR ''0''" by blast
    have v: "spec_decimal_value (str_nat n) = n"
      unfolding s spec_decimal_value_snoc using ih digit_char_props(2) [OF m] by simp
    have d: "set (str_nat n) \<subseteq> set ''0123456789''"
      unfolding s using ih digit_char_props(1) [OF m] by simp
    have e: "hd (str_nat n) = hd (str_nat (n div 10))"
      unfolding s using ih by simp
    from v d e h s show ?thesis by simp
  qed
qed

lemma str_int_decimal: "spec_is_decimal (str_int i) i"
proof (cases "i < 0")
  case True
  let ?n = "nat (- i)"
  from True have n: "?n \<noteq> 0" by simp
  from str_nat_decimal [of ?n] n have
    ne: "str_nat ?n \<noteq> []" and dg: "set (str_nat ?n) \<subseteq> set ''0123456789''" and
    v: "spec_decimal_value (str_nat ?n) = ?n" and h: "hd (str_nat ?n) \<noteq> CHR ''0''"
    by blast+
  from ne h have t: "take 1 (str_nat ?n) \<noteq> ''0''"
    by (cases "str_nat ?n") auto
  from True ne dg v t show ?thesis
    by (simp add: spec_is_decimal_def str_int_def)
next
  case False
  let ?n = "nat i"
  from str_nat_decimal [of ?n] have
    ne: "str_nat ?n \<noteq> []" and dg: "set (str_nat ?n) \<subseteq> set ''0123456789''" and
    v: "spec_decimal_value (str_nat ?n) = ?n" and h: "hd (str_nat ?n) = CHR ''0'' \<longrightarrow> ?n = 0"
    by blast+
  have z: "str_nat 0 = ''0''" by (simp add: str_nat.simps digit_char_def)
  have t: "take 1 (str_nat ?n) = ''0'' \<longrightarrow> str_nat ?n = ''0''"
  proof
    assume "take 1 (str_nat ?n) = ''0''"
    with ne have "hd (str_nat ?n) = CHR ''0''" by (cases "str_nat ?n") auto
    with h have "?n = 0" by blast
    with z show "str_nat ?n = ''0''" by simp
  qed
  from False ne dg v t show ?thesis
    by (simp add: spec_is_decimal_def str_int_def)
qed

text \<open>
  C3, as amended. With both operands evaluated, \<^verbatim>\<open>+\<close> gives the integer sum of two
  integers. When at least one operand is a string it gives the concatenation of \<^verbatim>\<open>str\<close>
  of both, where \<^verbatim>\<open>str\<close> of a string is the string and \<^verbatim>\<open>str\<close> of an integer is its
  ordinary decimal form, unless an integer operand has more decimal digits than the
  host's limit for \<^verbatim>\<open>str\<close> of an integer: then \<^verbatim>\<open>+\<close> raises \<^verbatim>\<open>ValueError\<close>. \<^verbatim>\<open>==\<close> gives 1
  when the two values are equal and 0 otherwise.
\<close>

theorem binop_add_eq:
  assumes "eval_expr h en l = Inr a" and "eval_expr h en r = Inr b"
  shows "(\<forall>x y. a = VInt x \<and> b = VInt y \<longrightarrow>
            eval_expr h en (BinOp l ''+'' r) = Inr (VInt (x + y)))
       \<and> ((\<exists>x. a = VStr x) \<or> (\<exists>y. b = VStr y) \<longrightarrow>
            (\<forall>sa sb. py_str h a = Inr sa \<and> py_str h b = Inr sb \<longrightarrow>
               eval_expr h en (BinOp l ''+'' r) = Inr (VStr (sa @ sb)))
            \<and> ((\<exists>e. py_str h a = Inl e) \<or> (\<exists>e. py_str h b = Inl e) \<longrightarrow>
               eval_expr h en (BinOp l ''+'' r) = Inl ValueError))
       \<and> (\<forall>x. py_str h (VStr x) = Inr x)
       \<and> (\<forall>i. if 0 < max_str_digits h \<and> 10 ^ max_str_digits h \<le> \<bar>i\<bar>
                then py_str h (VInt i) = Inl ValueError
                else \<exists>s. py_str h (VInt i) = Inr s \<and> spec_is_decimal s i)
       \<and> eval_expr h en (BinOp l ''=='' r) = Inr (VInt (if a = b then 1 else 0))"
proof -
  have err: "e = ValueError" if "py_str h v = Inl e" for v e
    using that by (cases v) (auto split: if_splits)
  have ints: "\<forall>x y. a = VInt x \<and> b = VInt y \<longrightarrow>
      eval_expr h en (BinOp l ''+'' r) = Inr (VInt (x + y))"
    using assms by simp
  have strs: "eval_expr h en (BinOp l ''+'' r) =
      (case py_str h a of Inl e \<Rightarrow> Inl e
       | Inr sa \<Rightarrow> (case py_str h b of Inl e \<Rightarrow> Inl e | Inr sb \<Rightarrow> Inr (VStr (sa @ sb))))"
    if "(\<exists>x. a = VStr x) \<or> (\<exists>y. b = VStr y)"
    using that assms by auto
  have cat: "(\<forall>sa sb. py_str h a = Inr sa \<and> py_str h b = Inr sb \<longrightarrow>
               eval_expr h en (BinOp l ''+'' r) = Inr (VStr (sa @ sb)))
            \<and> ((\<exists>e. py_str h a = Inl e) \<or> (\<exists>e. py_str h b = Inl e) \<longrightarrow>
               eval_expr h en (BinOp l ''+'' r) = Inl ValueError)"
    if "(\<exists>x. a = VStr x) \<or> (\<exists>y. b = VStr y)"
    unfolding strs [OF that]
    by (cases "py_str h a"; cases "py_str h b") (auto dest: err)
  have dec: "\<forall>i. if 0 < max_str_digits h \<and> 10 ^ max_str_digits h \<le> \<bar>i\<bar>
                then py_str h (VInt i) = Inl ValueError
                else \<exists>s. py_str h (VInt i) = Inr s \<and> spec_is_decimal s i"
    by (simp add: str_int_decimal)
  have eq: "eval_expr h en (BinOp l ''=='' r) = Inr (VInt (if a = b then 1 else 0))"
    using assms by simp
  from ints cat dec eq show ?thesis by simp
qed

theorem binop_add_eq_witness:
  "eval_expr sample_host Map.empty (BinOp (Number 2) ''+'' (Number 3)) = Inr (VInt 5)
   \<and> eval_expr sample_host Map.empty (BinOp (String ''a'') ''+'' (Number 1)) = Inr (VStr ''a1'')
   \<and> eval_expr sample_host [''n'' \<mapsto> VInt (- 120)] (BinOp (String ''n='') ''+'' (Var ''n''))
       = Inr (VStr ''n=-120'')
   \<and> eval_expr sample_host Map.empty (BinOp (Number 3) ''=='' (Number 3)) = Inr (VInt 1)
   \<and> eval_expr sample_host Map.empty (BinOp (Number 3) ''=='' (Number 4)) = Inr (VInt 0)
   \<and> spec_is_decimal ''-120'' (- 120)"
  using binop_add_eq [of sample_host Map.empty "Number 2" "VInt 2" "Number 3" "VInt 3"]
    binop_add_eq [of sample_host Map.empty "String ''a''" "VStr ''a''" "Number 1" "VInt 1"]
    binop_add_eq [of sample_host "[''n'' \<mapsto> VInt (- 120)]" "String ''n=''" "VStr ''n=''"
      "Var ''n''" "VInt (- 120)"]
    binop_add_eq [of sample_host Map.empty "Number 3" "VInt 3" "Number 3" "VInt 3"]
    binop_add_eq [of sample_host Map.empty "Number 3" "VInt 3" "Number 4" "VInt 4"]
  by (simp add: str_int_def str_nat.simps digit_char_def spec_is_decimal_def
      spec_decimal_value_def)

lemma str_over_limit:
  "0 < max_str_digits h \<Longrightarrow>
     eval_expr h [''x'' \<mapsto> VInt (10 ^ max_str_digits h)] (BinOp (String ''a'') ''+'' (Var ''x''))
       = Inl ValueError"
  by simp

text \<open>
  C3 as stated fails on a host with the default limit: \<^verbatim>\<open>"a" + x\<close> raises when \<^verbatim>\<open>x\<close> is
  an integer of 4301 digits (a program reaches such a value by repeated \<^verbatim>\<open>mix x + x into x\<close>).
\<close>

theorem str_digit_limit_counterexample:
  "eval_expr cpython_default_host [''x'' \<mapsto> VInt (10 ^ 4300)] (BinOp (String ''a'') ''+'' (Var ''x''))
     = Inl ValueError"
proof -
  have L: "max_str_digits cpython_default_host = 4300"
    by (simp add: cpython_default_host_def)
  have "0 < max_str_digits cpython_default_host"
    unfolding L by (rule zero_less_numeral)
  from str_over_limit [OF this] show ?thesis
    unfolding L .
qed



text \<open>
  C9. Reading a variable that the environment does not hold, or holds as \<^verbatim>\<open>None\<close>, raises
  the \<^verbatim>\<open>NameError\<close> of \<^verbatim>\<open>Var.eval\<close>; \<^verbatim>\<open>ingredient\<close> binds its name to \<^verbatim>\<open>None\<close>, so a read
  after a bare declaration raises it.
\<close>

theorem var_unset_raises:
  "(en n = None \<or> en n = Some VNone \<longrightarrow> eval_expr h en (Var n) = Inl (NameError_undefined n))
   \<and> eval_stmt h d (IngredientDecl n ty) s = Done (s\<lparr>env := (env s)(n \<mapsto> VNone)\<rparr>)
   \<and> eval_expr h ((env s)(n \<mapsto> VNone)) (Var n) = Inl (NameError_undefined n)"
  by auto

theorem var_unset_raises_witness:
  "eval_expr sample_host Map.empty (Var ''x'') = Inl (NameError_undefined ''x'')
   \<and> eval_block sample_host 0 [IngredientDecl ''x'' ''Number'', ServeStmt (Var ''x'')] start_state
       = Raise (NameError_undefined ''x'') (start_state\<lparr>env := [''x'' \<mapsto> VNone]\<rparr>)"
  using var_unset_raises [of Map.empty "''x''" sample_host 0 "''Number''" start_state]
  by (simp add: start_state_def)

lemma bind_args_values:
  "bind_args h en pas l0 = Inr l \<Longrightarrow>
     \<exists>vs. map (eval_expr h en) (map snd pas) = map Inr vs \<and>
          l = foldl (\<lambda>m (p, v). m(p \<mapsto> v)) l0 (zip (map fst pas) vs)"
proof (induction pas arbitrary: l0)
  case Nil
  then show ?case by simp
next
  case (Cons pa pas)
  obtain p a where pa: "pa = (p, a)" by (cases pa)
  from Cons.prems pa obtain v where v: "eval_expr h en a = Inr v"
    and rest: "bind_args h en pas (l0(p \<mapsto> v)) = Inr l"
    by (auto split: sum.splits)
  from Cons.IH [OF rest] obtain vs where
    m: "map (eval_expr h en) (map snd pas) = map Inr vs" and
    f: "l = foldl (\<lambda>m (p, v). m(p \<mapsto> v)) (l0(p \<mapsto> v)) (zip (map fst pas) vs)"
    by blast
  have "map (eval_expr h en) (map snd (pa # pas)) = map Inr (v # vs)"
    using m v pa by simp
  moreover have "l = foldl (\<lambda>m (p, v). m(p \<mapsto> v)) l0 (zip (map fst (pa # pas)) (v # vs))"
    unfolding f pa by simp
  ultimately show ?case by blast
qed

text \<open>
  C6. A \<^verbatim>\<open>make\<close> that returns leaves the caller's environment as it was. The arguments
  are evaluated in the caller's environment, and the body runs in a new dictionary that
  holds the table and the parameters, bound in order, and nothing else; what the body
  binds there is dropped.
\<close>

theorem make_frame_isolation:
  assumes "eval_stmt h d (MakeStmt name args) s = Done s'"
  shows "env s' = env s \<and>
    (\<exists>rs params body vs d' sb.
       env s ''__recipes__'' = Some (VRecipes rs) \<and>
       map_of rs name = Some (params, body) \<and>
       length params = length args \<and>
       map (eval_expr h (env s)) args = map Inr vs \<and>
       d = Suc d' \<and>
       eval_block h d' body
         (s\<lparr>env := foldl (\<lambda>m (p, v). m(p \<mapsto> v)) [''__recipes__'' \<mapsto> VRecipes rs] (zip params vs)\<rparr>)
         = Done sb \<and>
       s' = sb\<lparr>env := env s\<rparr>)"
proof -
  from assms obtain rs where rs: "env s ''__recipes__'' = Some (VRecipes rs)"
    by (simp split: option.splits val.splits if_splits)
  from assms rs obtain params body where pb: "map_of rs name = Some (params, body)"
    by (cases "map_of rs name") auto
  from assms rs pb have len: "length params = length args"
    by (simp split: if_splits)
  from assms rs pb len obtain local where
    l: "bind_args h (env s) (zip params args) [''__recipes__'' \<mapsto> VRecipes rs] = Inr local"
    by (cases "bind_args h (env s) (zip params args) [''__recipes__'' \<mapsto> VRecipes rs]") auto
  from assms rs pb len l obtain d' where d: "d = Suc d'"
    by (cases d) auto
  from assms rs pb len l d obtain sb where
    sb: "eval_block h d' body (s\<lparr>env := local\<rparr>) = Done sb" and s': "s' = sb\<lparr>env := env s\<rparr>"
    by (cases "eval_block h d' body (s\<lparr>env := local\<rparr>)") auto
  from bind_args_values [OF l] len obtain vs where
    vs: "map (eval_expr h (env s)) args = map Inr vs" and
    loc: "local = foldl (\<lambda>m (p, v). m(p \<mapsto> v)) [''__recipes__'' \<mapsto> VRecipes rs] (zip params vs)"
    by auto
  from s' have "env s' = env s" by simp
  with rs pb len vs d sb s' loc show ?thesis by blast
qed

theorem make_frame_isolation_witness:
  "eval_stmt sample_host 1 (MakeStmt ''Foo'' [BinOp (Var ''x'') ''+'' (Number 1)])
     \<lparr>env = [''__recipes__'' \<mapsto> VRecipes demo_recipes, ''x'' \<mapsto> VInt 1], out = [], inp = []\<rparr>
   = Done \<lparr>env = [''__recipes__'' \<mapsto> VRecipes demo_recipes, ''x'' \<mapsto> VInt 1],
            out = [Printed ''12''], inp = []\<rparr>"
  using make_frame_isolation [of sample_host 1 "''Foo''" "[BinOp (Var ''x'') ''+'' (Number 1)]"
      "\<lparr>env = [''__recipes__'' \<mapsto> VRecipes demo_recipes, ''x'' \<mapsto> VInt 1], out = [], inp = []\<rparr>"
      "\<lparr>env = [''__recipes__'' \<mapsto> VRecipes demo_recipes, ''x'' \<mapsto> VInt 1],
            out = [Printed ''12''], inp = []\<rparr>"]
  by (simp add: demo_recipes_def str_int_def str_nat.simps digit_char_def)





section \<open>Properties of the parser\<close>

text \<open>
  Rules that let the simplifier run the parser on a token list: a \<open>bindE\<close> is resolved
  before its continuation is looked at.
\<close>

lemma bindE_simps [simp]: "bindE (Inr x) f = f x" "bindE (Inl e) f = Inl e"
  by (simp_all add: bindE_def)

lemma bindE_weak_cong [cong]: "m = m' \<Longrightarrow> bindE m f = bindE m' f"
  by simp

lemma cur_simps [simp]: "cur [] = Inl IndexError" "cur (t # ts) = Inr t"
  by (simp_all add: cur_def)

lemma eat_Cons [simp]:
  "eat ty tv (t # ts) =
     (if ttype t = ty \<and> (tv = None \<or> Some (tvalue t) = tv) then Inr (t, ts)
      else Inl (SyntaxError_expected ty tv t))"
  by (simp add: eat_def)

lemma eat_Nil [simp]: "eat ty tv [] = Inl IndexError"
  by (simp add: eat_def)

lemmas parser_simps =
  parse_expr.simps parse_eq.simps parse_eq_loop.simps parse_add.simps parse_add_loop.simps
  parse_mod.simps parse_mod_loop.simps parse_primary.simps
  parse_decl_def parse_mix_def parse_serve_def parse_ask_def parse_args_loop.simps parse_make_def
  parse_stmt.simps parse_if.simps parse_repeat.simps parse_block.simps parse_block_loop.simps
  parse_params_loop.simps parse_recipe_def parse_loop.simps parse_def
  lower_def lower_char_def

lemma is_op_iff: "(ttype t = ''OP'' \<and> tvalue t = VStr s) = (t = OP s)"
  by (cases t) auto

lemma parse_mod_loop_stop: "t \<noteq> OP ''%'' \<Longrightarrow> parse_mod_loop e (t # rest) = Inr (e, t # rest)"
  by (simp add: parse_mod_loop.simps [of e "t # rest"] is_op_iff)

lemma parse_add_loop_stop: "t \<noteq> OP ''+'' \<Longrightarrow> parse_add_loop e (t # rest) = Inr (e, t # rest)"
  by (simp add: parse_add_loop.simps [of e "t # rest"] is_op_iff)

lemma parse_eq_loop_stop: "t \<noteq> OP ''=='' \<Longrightarrow> parse_eq_loop e (t # rest) = Inr (e, t # rest)"
  by (simp add: parse_eq_loop.simps [of e "t # rest"] is_op_iff)

lemma parse_mod_loop_step:
  "parse_mod_loop l (OP ''%'' # ts) =
     bindE (parse_primary ts) (\<lambda>(r, ts2). parse_mod_loop (BinOp l ''%'' r) ts2)"
  by (cases "parse_primary ts") (simp_all add: parse_mod_loop.simps [of l "OP ''%'' # ts"])

lemma parse_add_loop_step:
  "parse_add_loop l (OP ''+'' # ts) =
     bindE (parse_mod ts) (\<lambda>(r, ts2). parse_add_loop (BinOp l ''+'' r) ts2)"
  by (cases "parse_mod ts") (simp_all add: parse_add_loop.simps [of l "OP ''+'' # ts"])

lemma parse_eq_loop_step:
  "parse_eq_loop l (OP ''=='' # ts) =
     bindE (parse_add ts) (\<lambda>(r, ts2). parse_eq_loop (BinOp l ''=='' r) ts2)"
  by (cases "parse_add ts") (simp_all add: parse_eq_loop.simps [of l "OP ''=='' # ts"])

lemma grammar_parsed:
  "spec_Primary ts1 e1 \<Longrightarrow> (\<forall>rest. parse_primary (ts1 @ rest) = Inr (e1, rest))"
  "spec_Mod ts2 e2 \<Longrightarrow> (\<forall>rest. parse_mod (ts2 @ rest) = parse_mod_loop e2 rest)"
  "spec_Add ts3 e3 \<Longrightarrow>
     (\<forall>t rest. t \<noteq> OP ''%'' \<longrightarrow> parse_add (ts3 @ t # rest) = parse_add_loop e3 (t # rest))"
  "spec_Eq ts4 e4 \<Longrightarrow>
     (\<forall>t rest. t \<noteq> OP ''%'' \<and> t \<noteq> OP ''+'' \<longrightarrow>
        parse_eq (ts4 @ t # rest) = parse_eq_loop e4 (t # rest))"
proof (induct rule: spec_Primary_spec_Mod_spec_Add_spec_Eq.inducts)
  case (number n)
  show ?case by (simp add: parse_primary.simps)
next
  case (string s)
  show ?case by (simp add: parse_primary.simps)
next
  case (ident x)
  show ?case by (simp add: parse_primary.simps)
next
  case (paren ts e)
  show ?case
  proof
    fix rest
    have "parse_expr (ts @ SYM CHR '')'' # rest) = Inr (e, SYM CHR '')'' # rest)"
      using paren.hyps(2) by (simp add: parse_expr.simps parse_eq_loop_stop)
    then show "parse_primary ((SYM CHR ''('' # ts @ [SYM CHR '')'']) @ rest) = Inr (e, rest)"
      by (simp add: parse_primary.simps [of "SYM CHR ''('' # ts @ SYM CHR '')'' # rest"])
  qed
next
  case (mod_operand ts e)
  then show ?case by (simp add: parse_mod.simps)
next
  case (mod_chain ts l ts' r)
  then show ?case by (simp add: parse_mod_loop_step)
next
  case (add_operand ts e)
  then show ?case by (simp add: parse_add.simps parse_mod_loop_stop)
next
  case (add_chain ts l ts' r)
  then show ?case by (simp add: parse_add_loop_step parse_mod_loop_stop)
next
  case (eq_operand ts e)
  then show ?case by (simp add: parse_eq.simps parse_add_loop_stop)
next
  case (eq_chain ts l ts' r)
  then show ?case by (simp add: parse_eq_loop_step parse_add_loop_stop)
qed

lemma parsed_grammar:
  "\<forall>e r. parse_expr ts1 = Inr (e, r) \<longrightarrow> (\<exists>pre. ts1 = pre @ r \<and> spec_Eq pre e)"
  "\<forall>e r. parse_eq ts2 = Inr (e, r) \<longrightarrow> (\<exists>pre. ts2 = pre @ r \<and> spec_Eq pre e)"
  "\<forall>e r pre0. parse_eq_loop n3 ts3 = Inr (e, r) \<longrightarrow> spec_Eq pre0 n3 \<longrightarrow>
     (\<exists>pre. ts3 = pre @ r \<and> spec_Eq (pre0 @ pre) e)"
  "\<forall>e r. parse_add ts4 = Inr (e, r) \<longrightarrow> (\<exists>pre. ts4 = pre @ r \<and> spec_Add pre e)"
  "\<forall>e r pre0. parse_add_loop n5 ts5 = Inr (e, r) \<longrightarrow> spec_Add pre0 n5 \<longrightarrow>
     (\<exists>pre. ts5 = pre @ r \<and> spec_Add (pre0 @ pre) e)"
  "\<forall>e r. parse_mod ts6 = Inr (e, r) \<longrightarrow> (\<exists>pre. ts6 = pre @ r \<and> spec_Mod pre e)"
  "\<forall>e r pre0. parse_mod_loop n7 ts7 = Inr (e, r) \<longrightarrow> spec_Mod pre0 n7 \<longrightarrow>
     (\<exists>pre. ts7 = pre @ r \<and> spec_Mod (pre0 @ pre) e)"
  "\<forall>e r. parse_primary ts8 = Inr (e, r) \<longrightarrow> (\<exists>pre. ts8 = pre @ r \<and> spec_Primary pre e)"
proof (induct ts1 and ts2 and n3 ts3 and ts4 and n5 ts5 and ts6 and n7 ts7 and ts8
    rule: parse_expr_parse_eq_parse_eq_loop_parse_add_parse_add_loop_parse_mod_parse_mod_loop_parse_primary.induct)
  case (1 ts)
  then show ?case by (simp add: parse_expr.simps)
next
  case (2 ts)
  show ?case
  proof (intro allI impI)
    fix e r
    assume a: "parse_eq ts = Inr (e, r)"
    then obtain node ts1 where p: "parse_add ts = Inr (node, ts1)" and
      l: "parse_eq_loop node ts1 = Inr (e, r)"
      by (auto simp: parse_eq.simps [of ts] bindE_Inr)
    from "2.hyps"(1) p obtain pre1 where s1: "ts = pre1 @ ts1" and g1: "spec_Add pre1 node"
      by blast
    from "2.hyps"(2) [OF p refl] l eq_operand [OF g1] obtain pre2 where
      s2: "ts1 = pre2 @ r" and g2: "spec_Eq (pre1 @ pre2) e"
      by blast
    from s1 s2 g2 show "\<exists>pre. ts = pre @ r \<and> spec_Eq pre e" by auto
  qed
next
  case (3 node ts)
  show ?case
  proof (intro allI impI)
    fix e r pre0
    assume a: "parse_eq_loop node ts = Inr (e, r)" and g: "spec_Eq pre0 node"
    from a obtain t where c: "cur ts = Inr t" and
      rest: "(if ttype t = ''OP'' \<and> tvalue t = VStr ''=='' then
               bindE (eat ''OP'' None ts) (\<lambda>(optok, ts1).
               bindE (parse_add ts1) (\<lambda>(right, ts2).
               parse_eq_loop (BinOp node (tstr optok) right) ts2))
             else Inr (node, ts)) = Inr (e, r)"
      by (simp add: parse_eq_loop.simps [of node ts] bindE_Inr) blast
    show "\<exists>pre. ts = pre @ r \<and> spec_Eq (pre0 @ pre) e"
    proof (cases "ttype t = ''OP'' \<and> tvalue t = VStr ''==''")
      case True
      with rest obtain optok ts1 where e1: "eat ''OP'' None ts = Inr (optok, ts1)" and
        r1: "bindE (parse_add ts1) (\<lambda>(right, ts2).
               parse_eq_loop (BinOp node (tstr optok) right) ts2) = Inr (e, r)"
        by (auto simp: bindE_Inr)
      from r1 obtain right ts2 where p: "parse_add ts1 = Inr (right, ts2)" and
        l: "parse_eq_loop (BinOp node (tstr optok) right) ts2 = Inr (e, r)"
        by (auto simp: bindE_Inr)
      from eat_Inr [OF e1] c have ts: "ts = optok # ts1" and "t = optok"
        by (simp_all add: cur_def)
      with True have op: "optok = OP ''==''" by (simp add: is_op_iff)
      from "3.hyps"(1) [OF c True e1 refl] p obtain pre1 where
        s1: "ts1 = pre1 @ ts2" and g1: "spec_Add pre1 right"
        by blast
      have g2: "spec_Eq (pre0 @ OP ''=='' # pre1) (BinOp node (tstr optok) right)"
        unfolding op using eq_chain [OF g g1] by simp
      from "3.hyps"(2) [OF c True e1 refl p refl] l g2 obtain pre2 where
        s2: "ts2 = pre2 @ r" and g3: "spec_Eq ((pre0 @ OP ''=='' # pre1) @ pre2) e"
        by blast
      have "ts = (OP ''=='' # pre1 @ pre2) @ r"
        unfolding ts op s1 s2 by simp
      moreover from g3 have "spec_Eq (pre0 @ (OP ''=='' # pre1 @ pre2)) e" by simp
      ultimately show ?thesis by blast
    next
      case False
      with rest g show ?thesis by auto
    qed
  qed
next
  case (4 ts)
  show ?case
  proof (intro allI impI)
    fix e r
    assume a: "parse_add ts = Inr (e, r)"
    then obtain node ts1 where p: "parse_mod ts = Inr (node, ts1)" and
      l: "parse_add_loop node ts1 = Inr (e, r)"
      by (auto simp: parse_add.simps [of ts] bindE_Inr)
    from "4.hyps"(1) p obtain pre1 where s1: "ts = pre1 @ ts1" and g1: "spec_Mod pre1 node"
      by blast
    from "4.hyps"(2) [OF p refl] l add_operand [OF g1] obtain pre2 where
      s2: "ts1 = pre2 @ r" and g2: "spec_Add (pre1 @ pre2) e"
      by blast
    from s1 s2 g2 show "\<exists>pre. ts = pre @ r \<and> spec_Add pre e" by auto
  qed
next
  case (5 node ts)
  show ?case
  proof (intro allI impI)
    fix e r pre0
    assume a: "parse_add_loop node ts = Inr (e, r)" and g: "spec_Add pre0 node"
    from a obtain t where c: "cur ts = Inr t" and
      rest: "(if ttype t = ''OP'' \<and> tvalue t = VStr ''+'' then
               bindE (eat ''OP'' None ts) (\<lambda>(optok, ts1).
               bindE (parse_mod ts1) (\<lambda>(right, ts2).
               parse_add_loop (BinOp node (tstr optok) right) ts2))
             else Inr (node, ts)) = Inr (e, r)"
      by (simp add: parse_add_loop.simps [of node ts] bindE_Inr) blast
    show "\<exists>pre. ts = pre @ r \<and> spec_Add (pre0 @ pre) e"
    proof (cases "ttype t = ''OP'' \<and> tvalue t = VStr ''+''")
      case True
      with rest obtain optok ts1 where e1: "eat ''OP'' None ts = Inr (optok, ts1)" and
        r1: "bindE (parse_mod ts1) (\<lambda>(right, ts2).
               parse_add_loop (BinOp node (tstr optok) right) ts2) = Inr (e, r)"
        by (auto simp: bindE_Inr)
      from r1 obtain right ts2 where p: "parse_mod ts1 = Inr (right, ts2)" and
        l: "parse_add_loop (BinOp node (tstr optok) right) ts2 = Inr (e, r)"
        by (auto simp: bindE_Inr)
      from eat_Inr [OF e1] c have ts: "ts = optok # ts1" and "t = optok"
        by (simp_all add: cur_def)
      with True have op: "optok = OP ''+''" by (simp add: is_op_iff)
      from "5.hyps"(1) [OF c True e1 refl] p obtain pre1 where
        s1: "ts1 = pre1 @ ts2" and g1: "spec_Mod pre1 right"
        by blast
      have g2: "spec_Add (pre0 @ OP ''+'' # pre1) (BinOp node (tstr optok) right)"
        unfolding op using add_chain [OF g g1] by simp
      from "5.hyps"(2) [OF c True e1 refl p refl] l g2 obtain pre2 where
        s2: "ts2 = pre2 @ r" and g3: "spec_Add ((pre0 @ OP ''+'' # pre1) @ pre2) e"
        by blast
      have "ts = (OP ''+'' # pre1 @ pre2) @ r"
        unfolding ts op s1 s2 by simp
      moreover from g3 have "spec_Add (pre0 @ (OP ''+'' # pre1 @ pre2)) e" by simp
      ultimately show ?thesis by blast
    next
      case False
      with rest g show ?thesis by auto
    qed
  qed
next
  case (6 ts)
  show ?case
  proof (intro allI impI)
    fix e r
    assume a: "parse_mod ts = Inr (e, r)"
    then obtain node ts1 where p: "parse_primary ts = Inr (node, ts1)" and
      l: "parse_mod_loop node ts1 = Inr (e, r)"
      by (auto simp: parse_mod.simps [of ts] bindE_Inr)
    from "6.hyps"(1) p obtain pre1 where s1: "ts = pre1 @ ts1" and g1: "spec_Primary pre1 node"
      by blast
    from "6.hyps"(2) [OF p refl] l mod_operand [OF g1] obtain pre2 where
      s2: "ts1 = pre2 @ r" and g2: "spec_Mod (pre1 @ pre2) e"
      by blast
    from s1 s2 g2 show "\<exists>pre. ts = pre @ r \<and> spec_Mod pre e" by auto
  qed
next
  case (7 node ts)
  show ?case
  proof (intro allI impI)
    fix e r pre0
    assume a: "parse_mod_loop node ts = Inr (e, r)" and g: "spec_Mod pre0 node"
    from a obtain t where c: "cur ts = Inr t" and
      rest: "(if ttype t = ''OP'' \<and> tvalue t = VStr ''%'' then
               bindE (eat ''OP'' None ts) (\<lambda>(optok, ts1).
               bindE (parse_primary ts1) (\<lambda>(right, ts2).
               parse_mod_loop (BinOp node (tstr optok) right) ts2))
             else Inr (node, ts)) = Inr (e, r)"
      by (simp add: parse_mod_loop.simps [of node ts] bindE_Inr) blast
    show "\<exists>pre. ts = pre @ r \<and> spec_Mod (pre0 @ pre) e"
    proof (cases "ttype t = ''OP'' \<and> tvalue t = VStr ''%''")
      case True
      with rest obtain optok ts1 where e1: "eat ''OP'' None ts = Inr (optok, ts1)" and
        r1: "bindE (parse_primary ts1) (\<lambda>(right, ts2).
               parse_mod_loop (BinOp node (tstr optok) right) ts2) = Inr (e, r)"
        by (auto simp: bindE_Inr)
      from r1 obtain right ts2 where p: "parse_primary ts1 = Inr (right, ts2)" and
        l: "parse_mod_loop (BinOp node (tstr optok) right) ts2 = Inr (e, r)"
        by (auto simp: bindE_Inr)
      from eat_Inr [OF e1] c have ts: "ts = optok # ts1" and "t = optok"
        by (simp_all add: cur_def)
      with True have op: "optok = OP ''%''" by (simp add: is_op_iff)
      from "7.hyps"(1) [OF c True e1 refl] p obtain pre1 where
        s1: "ts1 = pre1 @ ts2" and g1: "spec_Primary pre1 right"
        by blast
      have g2: "spec_Mod (pre0 @ OP ''%'' # pre1) (BinOp node (tstr optok) right)"
        unfolding op using mod_chain [OF g g1] by simp
      from "7.hyps"(2) [OF c True e1 refl p refl] l g2 obtain pre2 where
        s2: "ts2 = pre2 @ r" and g3: "spec_Mod ((pre0 @ OP ''%'' # pre1) @ pre2) e"
        by blast
      have "ts = (OP ''%'' # pre1 @ pre2) @ r"
        unfolding ts op s1 s2 by simp
      moreover from g3 have "spec_Mod (pre0 @ (OP ''%'' # pre1 @ pre2)) e" by simp
      ultimately show ?thesis by blast
    next
      case False
      with rest g show ?thesis by auto
    qed
  qed
next
  case (8 ts)
  show ?case
  proof (intro allI impI)
    fix e r
    assume a: "parse_primary ts = Inr (e, r)"
    then obtain t where c: "cur ts = Inr t"
      by (auto simp: parse_primary.simps [of ts] bindE_Inr)
    then obtain ts0 where ts: "ts = t # ts0"
      by (cases ts) (simp_all add: cur_def)
    have sym_type: "u = SYM ch" if "ttype u = [ch]" for u ch
      using that by (cases u) simp_all
    show "\<exists>pre. ts = pre @ r \<and> spec_Primary pre e"
    proof (cases t)
      case (NUMBER n)
      with a ts have "e = Number n" "r = ts0"
        by (simp_all add: parse_primary.simps)
      with ts NUMBER number [of n] show ?thesis by auto
    next
      case (STRING x)
      with a ts have "e = String x" "r = ts0"
        by (simp_all add: parse_primary.simps)
      with ts STRING string [of x] show ?thesis by auto
    next
      case (ID x)
      with a ts have "e = Var x" "r = ts0"
        by (simp_all add: parse_primary.simps)
      with ts ID ident [of x] show ?thesis by auto
    next
      case (OP x)
      with a ts show ?thesis
        by (simp add: parse_primary.simps split: if_splits)
    next
      case EOF
      with a ts show ?thesis
        by (simp add: parse_primary.simps)
    next
      case (SYM ch)
      from a ts SYM have v: "tvalue t = VStr ''(''"
        by (simp add: parse_primary.simps split: if_splits)
      with SYM have ch: "ch = CHR ''(''" by simp
      from ts SYM ch have e1: "eat ''('' None ts = Inr (t, ts0)" by simp
      from a ts SYM ch have
        "bindE (parse_expr ts0) (\<lambda>(node, ts2).
           bindE (eat '')'' None ts2) (\<lambda>(u, ts3). Inr (node, ts3))) = Inr (e, r)"
        by (simp add: parse_primary.simps)
      then obtain node ts2 where p: "parse_expr ts0 = Inr (node, ts2)" and
        r2: "bindE (eat '')'' None ts2) (\<lambda>(u, ts3). Inr (node, ts3)) = Inr (e, r)"
        by (auto simp: bindE_Inr)
      from r2 obtain u where e2: "eat '')'' None ts2 = Inr (u, r)" and en: "e = node"
        by (auto simp: bindE_Inr)
      from eat_Inr [OF e2] have ts2: "ts2 = u # r" .
      from e2 ts2 have "ttype u = '')''" by (simp split: if_splits)
      then have u: "u = SYM CHR '')''" by (rule sym_type)
      from "8.hyps"(2) [OF c SYM v e1 refl] p obtain pre1 where
        s1: "ts0 = pre1 @ ts2" and g1: "spec_Eq pre1 node"
        by blast
      have "ts = (SYM CHR ''('' # pre1 @ [SYM CHR '')'']) @ r"
        unfolding ts SYM ch s1 ts2 u by simp
      with paren [OF g1] en show ?thesis by blast
    qed
  qed
qed

text \<open>
  C2. \<^verbatim>\<open>parse_expr\<close> and the specification's grammar agree. A token list that the
  grammar reads as the tree \<open>e\<close>, followed by a token that is none of the three
  operators, is parsed to exactly \<open>e\<close> with the following tokens left; and whatever
  \<^verbatim>\<open>parse_expr\<close> accepts, the tokens it has consumed are read by the grammar as the tree
  it returns. So \<^verbatim>\<open>%\<close> binds tighter than \<^verbatim>\<open>+\<close>, which binds tighter than \<^verbatim>\<open>==\<close>, each
  level associates to the left, and \<^verbatim>\<open>a + b % c\<close> is \<^verbatim>\<open>BinOp(a, '+', BinOp(b, '%', c))\<close> for
  any three primaries.
\<close>

theorem precedence_parse:
  "(spec_Eq ts e \<and> t \<noteq> OP ''=='' \<and> t \<noteq> OP ''+'' \<and> t \<noteq> OP ''%'' \<longrightarrow>
      parse_expr (ts @ t # rest) = Inr (e, t # rest))
   \<and> (parse_expr ts' = Inr (e', rest') \<longrightarrow> (\<exists>pre. ts' = pre @ rest' \<and> spec_Eq pre e'))
   \<and> (spec_Primary ta a \<and> spec_Primary tb b \<and> spec_Primary tc c \<and>
        t \<noteq> OP ''=='' \<and> t \<noteq> OP ''+'' \<and> t \<noteq> OP ''%'' \<longrightarrow>
      parse_expr (ta @ OP ''+'' # tb @ OP ''%'' # tc @ t # rest)
        = Inr (BinOp a ''+'' (BinOp b ''%'' c), t # rest))"
proof -
  have fwd: "parse_expr (us @ t # rest) = Inr (x, t # rest)"
    if "spec_Eq us x" "t \<noteq> OP ''=='' \<and> t \<noteq> OP ''+'' \<and> t \<noteq> OP ''%''" for us x
    using grammar_parsed(4) [OF that(1)] that(2)
    by (simp add: parse_expr.simps parse_eq_loop_stop)
  have abc: "spec_Eq (ta @ OP ''+'' # tb @ OP ''%'' # tc) (BinOp a ''+'' (BinOp b ''%'' c))"
    if "spec_Primary ta a" "spec_Primary tb b" "spec_Primary tc c"
    using eq_operand [OF add_chain [OF add_operand [OF mod_operand [OF that(1)]]
          mod_chain [OF mod_operand [OF that(2)] that(3)]]]
    by simp
  have third: "parse_expr (ta @ OP ''+'' # tb @ OP ''%'' # tc @ t # rest)
        = Inr (BinOp a ''+'' (BinOp b ''%'' c), t # rest)"
    if "spec_Primary ta a" "spec_Primary tb b" "spec_Primary tc c"
      "t \<noteq> OP ''=='' \<and> t \<noteq> OP ''+'' \<and> t \<noteq> OP ''%''"
    using fwd [OF abc [OF that(1-3)] that(4)] by simp
  from fwd parsed_grammar(1) third show ?thesis by blast
qed

theorem precedence_parse_witness:
  "parse_expr [ID ''a'', OP ''+'', ID ''b'', OP ''%'', ID ''c'', EOF]
     = Inr (BinOp (Var ''a'') ''+'' (BinOp (Var ''b'') ''%'' (Var ''c'')), [EOF])
   \<and> spec_Eq [ID ''a'', OP ''+'', ID ''b'', OP ''%'', ID ''c'']
        (BinOp (Var ''a'') ''+'' (BinOp (Var ''b'') ''%'' (Var ''c'')))
   \<and> parse_expr [ID ''a'', OP ''%'', ID ''b'', OP ''+'', ID ''c'', OP ''=='', ID ''d'', SYM CHR '';'']
     = Inr (BinOp (BinOp (BinOp (Var ''a'') ''%'' (Var ''b'')) ''+'' (Var ''c'')) ''=='' (Var ''d''),
            [SYM CHR '';''])
   \<and> parse_expr [NUMBER 1, OP ''+'', NUMBER 2, OP ''+'', NUMBER 3, SYM CHR '';'']
     = Inr (BinOp (BinOp (Number 1) ''+'' (Number 2)) ''+'' (Number 3), [SYM CHR '';''])"
proof -
  have m: "spec_Mod [ID ''b'', OP ''%'', ID ''c''] (BinOp (Var ''b'') ''%'' (Var ''c''))"
    using mod_chain [OF mod_operand [OF ident] ident, of "''b''" "''c''"] by simp
  have a: "spec_Add [ID ''a'', OP ''+'', ID ''b'', OP ''%'', ID ''c'']
      (BinOp (Var ''a'') ''+'' (BinOp (Var ''b'') ''%'' (Var ''c'')))"
    using add_chain [OF add_operand [OF mod_operand [OF ident]] m, of "''a''"] by simp
  have g: "spec_Eq [ID ''a'', OP ''+'', ID ''b'', OP ''%'', ID ''c'']
      (BinOp (Var ''a'') ''+'' (BinOp (Var ''b'') ''%'' (Var ''c'')))"
    by (rule eq_operand [OF a])
  have stop: "EOF \<noteq> OP ''=='' \<and> EOF \<noteq> OP ''+'' \<and> EOF \<noteq> OP ''%''"
    by simp
  have p: "parse_expr [ID ''a'', OP ''+'', ID ''b'', OP ''%'', ID ''c'', EOF]
     = Inr (BinOp (Var ''a'') ''+'' (BinOp (Var ''b'') ''%'' (Var ''c'')), [EOF])"
    using precedence_parse [THEN conjunct1, rule_format, OF conjI [OF g stop], of "[]"] by simp
  have q: "parse_expr [ID ''a'', OP ''%'', ID ''b'', OP ''+'', ID ''c'', OP ''=='', ID ''d'', SYM CHR '';'']
     = Inr (BinOp (BinOp (BinOp (Var ''a'') ''%'' (Var ''b'')) ''+'' (Var ''c'')) ''=='' (Var ''d''),
            [SYM CHR '';''])"
    by (simp add: parser_simps)
  have r: "parse_expr [NUMBER 1, OP ''+'', NUMBER 2, OP ''+'', NUMBER 3, SYM CHR '';'']
     = Inr (BinOp (BinOp (Number 1) ''+'' (Number 2)) ''+'' (Number 3), [SYM CHR '';''])"
    by (simp add: parser_simps)
  from p g q r show ?thesis by (intro conjI)
qed

text \<open>
  C8. The claim does not hold of the code. Where the grammar has \<^verbatim>\<open>into\<close>, \<^verbatim>\<open>to\<close> and
  \<^verbatim>\<open>then\<close>, the parsing methods call \<^verbatim>\<open>self.eat('ID')\<close> with no value to compare (the
  comments beside the calls name the keyword), so any identifier is accepted there:
  \<^verbatim>\<open>mix 1 banana x;\<close>, \<^verbatim>\<open>ask "n?" banana x;\<close>, \<^verbatim>\<open>repeat 1 banana 3 {}\<close> and
  \<^verbatim>\<open>if (1) banana {}\<close> all parse.
\<close>

theorem connective_keyword_unchecked:
  "parse_stmt [ID ''mix'', NUMBER 1, ID ''banana'', ID ''x'', SYM CHR '';'', EOF]
     = Inr (MixStmt (Number 1) ''x'', [EOF])
   \<and> parse_stmt [ID ''ask'', STRING ''n?'', ID ''banana'', ID ''x'', SYM CHR '';'', EOF]
     = Inr (AskStmt (String ''n?'') ''x'', [EOF])
   \<and> parse_stmt [ID ''repeat'', NUMBER 1, ID ''banana'', NUMBER 3, SYM CHR ''{'', SYM CHR ''}'', EOF]
     = Inr (RepeatStmt (Number 1) (Number 3) [], [EOF])
   \<and> parse_stmt [ID ''if'', SYM CHR ''('', NUMBER 1, SYM CHR '')'', ID ''banana'',
                  SYM CHR ''{'', SYM CHR ''}'', EOF]
     = Inr (IfStmt (Number 1) [] None, [EOF])"
  by (simp add: parser_simps)

section \<open>The table among the variables\<close>

lemma env_ok_upd: "env_ok rs en \<Longrightarrow> val_ok rs v \<Longrightarrow> env_ok rs (en(n \<mapsto> v))"
  by (simp add: env_ok_def)

lemma val_ok_simps [simp]:
  "val_ok rs VNone" "val_ok rs (VInt i)" "val_ok rs (VStr x)" "val_ok rs (VRecipes t) = (t = rs)"
  by (simp_all add: val_ok_def)

lemma py_add_ok: "py_add a b = Inr v \<Longrightarrow> \<exists>i. v = VInt i"
  by (cases "(a, b)" rule: py_add.cases) auto

lemma py_mod_ok: "py_mod h a b = Inr v \<Longrightarrow> (\<exists>i. v = VInt i) \<or> (\<exists>x. v = VStr x)"
  by (cases "(h, a, b)" rule: py_mod.cases) (auto split: if_splits sum.splits)

lemma eval_expr_ok:
  "env_ok rs en \<Longrightarrow> eval_expr h en e = Inr v \<Longrightarrow>
     (\<exists>i. v = VInt i) \<or> (\<exists>x. v = VStr x) \<or> v = VRecipes rs"
proof (cases e)
  case (Number n)
  then show "eval_expr h en e = Inr v \<Longrightarrow> ?thesis" by auto
next
  case (String x)
  then show "eval_expr h en e = Inr v \<Longrightarrow> ?thesis" by auto
next
  case (Var n)
  assume ok: "env_ok rs en" and ev: "eval_expr h en e = Inr v"
  from ev Var have "en n = Some v" and "v \<noteq> VNone"
    by (auto split: option.splits val.splits)
  with ok have "val_ok rs v" by (simp add: env_ok_def)
  with \<open>v \<noteq> VNone\<close> show ?thesis by (cases v) simp_all
next
  case (BinOp l op r)
  assume ev: "eval_expr h en e = Inr v"
  from ev BinOp obtain a b where
    v: "(if op = ''+'' then
           (if isinstance_str a \<or> isinstance_str b
            then (case py_str h a of Inl e \<Rightarrow> Inl e
                  | Inr sa \<Rightarrow> (case py_str h b of Inl e \<Rightarrow> Inl e | Inr sb \<Rightarrow> Inr (VStr (sa @ sb))))
            else py_add a b)
         else if op = ''%'' then py_mod h a b
         else if op = ''=='' then Inr (VInt (if a = b then 1 else 0))
         else Inl (SyntaxError_operator op)) = Inr v"
    by (simp split: sum.splits)
  then show ?thesis
    by (auto split: if_splits sum.splits dest: py_add_ok py_mod_ok)
qed

lemma bind_args_ok:
  "env_ok rs en \<Longrightarrow> env_ok rs l0 \<Longrightarrow> bind_args h en pas l0 = Inr l \<Longrightarrow> env_ok rs l"
proof (induction pas arbitrary: l0)
  case Nil
  then show ?case by simp
next
  case (Cons pa pas)
  obtain p a where pa: "pa = (p, a)" by (cases pa)
  from Cons.prems(3) pa obtain v where v: "eval_expr h en a = Inr v"
    and rest: "bind_args h en pas (l0(p \<mapsto> v)) = Inr l"
    by (auto split: sum.splits)
  from eval_expr_ok [OF Cons.prems(1) v] have "val_ok rs v" by auto
  from Cons.IH [OF Cons.prems(1) env_ok_upd [OF Cons.prems(2) this] rest] show ?case .
qed


lemma eval_preserves_env_ok:
  "env_ok rs (env s1) \<Longrightarrow> env_ok rs (env (state_of (eval_stmt h1 d1 st s1)))"
  "env_ok rs (env s2) \<Longrightarrow> env_ok rs (env (state_of (eval_block h2 d2 b s2)))"
  "env_ok rs (env s3) \<Longrightarrow> env_ok rs (env (state_of (eval_range h3 d3 body i stop s3)))"
proof (induct h1 d1 st s1 and h2 d2 b s2 and h3 d3 body i stop s3
    rule: eval_stmt_eval_block_eval_range.induct)
  case (1 h d name ty s)
  then show ?case by (simp add: env_ok_upd del: fun_upd_apply)
next
  case (2 h d ex target s)
  show ?case
  proof (cases "eval_expr h (env s) ex")
    case (Inl e)
    with 2 show ?thesis by simp
  next
    case (Inr v)
    from eval_expr_ok [OF "2.prems" Inr] have "val_ok rs v" by auto
    with 2 Inr show ?thesis by (simp add: env_ok_upd del: fun_upd_apply)
  qed
next
  case (3 h d ex s)
  then show ?case by (simp split: sum.splits)
next
  case (4 h d prompt target s)
  then show ?case
    by (auto simp: Let_def env_ok_upd simp del: fun_upd_apply
        split: sum.splits list.splits option.splits)
next
  case (5 h d cond then_s else_s s)
  show ?case
  proof (cases "eval_expr h (env s) cond")
    case (Inl e)
    with 5 show ?thesis by simp
  next
    case (Inr c)
    show ?thesis
    proof (cases "truthy c")
      case True
      with Inr "5.hyps"(1) [OF Inr True "5.prems"] show ?thesis by simp
    next
      case False
      show ?thesis
      proof (cases else_s)
        case None
        with Inr False "5.prems" show ?thesis by simp
      next
        case (Some eb)
        show ?thesis
        proof (cases "eb = []")
          case True
          with Inr False Some "5.prems" show ?thesis by simp
        next
          case ne: False
          with Inr False Some "5.hyps"(2) [OF Inr False Some ne "5.prems"] show ?thesis by simp
        qed
      qed
    qed
  qed
next
  case (6 h d start stop body s)
  show ?case
  proof (cases "eval_expr h (env s) start")
    case (Inl e)
    with 6 show ?thesis by simp
  next
    case lo: (Inr lo)
    show ?thesis
    proof (cases "eval_expr h (env s) stop")
      case (Inl e)
      with lo 6 show ?thesis by simp
    next
      case hi: (Inr hi)
      show ?thesis
      proof (cases "\<exists>x y. hi = VInt x \<and> lo = VInt y")
        case True
        then obtain x y where xy: "hi = VInt x" "lo = VInt y" by blast
        from "6.hyps" [OF lo hi xy "6.prems"] lo hi xy show ?thesis by simp
      next
        case False
        with lo hi "6.prems" show ?thesis by (cases hi; cases lo) simp_all
      qed
    qed
  qed
next
  case (7 h d name args s)
  have "env (state_of (eval_stmt h d (MakeStmt name args) s)) = env s"
    by (simp split: option.splits val.splits sum.splits nat.splits result.splits prod.splits)
  with "7.prems" show ?case by simp
next
  case (8 h d s)
  then show ?case by simp
next
  case (9 h d x xs s)
  show ?case
  proof (cases "eval_stmt h d x s")
    case (Done s')
    from "9.hyps"(1) [OF "9.prems"] Done have "env_ok rs (env s')" by simp
    from "9.hyps"(2) [OF Done this] Done show ?thesis by simp
  next
    case (Raise e s')
    from "9.hyps"(1) [OF "9.prems"] Raise show ?thesis by simp
  qed
next
  case (10 h d body i stop s)
  show ?case
  proof (cases "i < stop")
    case True
    let ?s = "s\<lparr>env := (env s)(''i'' \<mapsto> VInt i)\<rparr>"
    from "10.prems" have ok: "env_ok rs (env ?s)" by (simp add: env_ok_upd del: fun_upd_apply)
    show ?thesis
    proof (cases "eval_block h d body ?s")
      case (Done s')
      from "10.hyps"(1) [OF True ok] Done have "env_ok rs (env s')" by simp
      from "10.hyps"(2) [OF True Done this] True Done show ?thesis
        by (simp add: eval_range.simps [of h d body i stop s])
    next
      case (Raise e s')
      from "10.hyps"(1) [OF True ok] Raise True show ?thesis
        by (simp add: eval_range.simps [of h d body i stop s])
    qed
  next
    case False
    with "10.prems" show ?thesis by (simp add: eval_range.simps [of h d body i stop s])
  qed
qed


lemma eval_recipes_registered:
  "eval_recipes rds [''__recipes__'' \<mapsto> VRecipes rs]
     = Inr [''__recipes__'' \<mapsto> VRecipes (registered rds rs)]"
proof (induction rds arbitrary: rs)
  case Nil
  then show ?case by simp
next
  case (Cons r rds)
  obtain name params body where r: "r = RecipeDef name params body" by (cases r)
  have step: "eval_recipe r [''__recipes__'' \<mapsto> VRecipes rs]
      = Inr [''__recipes__'' \<mapsto> VRecipes (dict_set name (params, body) rs)]"
    unfolding r by simp
  have reg: "registered (r # rds) rs = registered rds (dict_set name (params, body) rs)"
    unfolding r by simp
  have "eval_recipes (r # rds) [''__recipes__'' \<mapsto> VRecipes rs]
      = eval_recipes rds [''__recipes__'' \<mapsto> VRecipes (dict_set name (params, body) rs)]"
    by (simp only: eval_recipes.simps step sum.case)
  also have "\<dots> = Inr [''__recipes__'' \<mapsto> VRecipes (registered rds (dict_set name (params, body) rs))]"
    by (rule Cons.IH)
  finally show ?case unfolding reg .
qed

lemma eval_program_registered:
  "eval_program h d (Program rds main) lines =
     eval_block h d main
       \<lparr>env = [''__recipes__'' \<mapsto> VRecipes (registered rds [])], out = [], inp = lines\<rparr>"
  by (simp only: eval_program.simps Let_def state.simps eval_recipes_registered sum.case
      state.update_convs)

text \<open>
  C10, as amended. The environment \<^verbatim>\<open>Program.eval\<close> ends with, the environment any
  statement leaves, and the frame \<^verbatim>\<open>MakeStmt.eval\<close> builds all hold, under every name,
  \<^verbatim>\<open>None\<close>, an integer, a string or the table of the run; an expression that evaluates
  yields an integer, a string or that table.
\<close>

theorem env_holds_values:
  "env_ok (registered rds []) (env (state_of (eval_program h d (Program rds main) lines)))
   \<and> (env_ok rs (env s) \<longrightarrow> env_ok rs (env (state_of (eval_stmt h d st s))))
   \<and> (env_ok rs en \<and> bind_args h en pas [''__recipes__'' \<mapsto> VRecipes rs] = Inr local \<longrightarrow>
        env_ok rs local)
   \<and> (env_ok rs en \<and> eval_expr h en e = Inr v \<longrightarrow>
        (\<exists>i. v = VInt i) \<or> (\<exists>x. v = VStr x) \<or> v = VRecipes rs)"
proof -
  have init: "env_ok t [''__recipes__'' \<mapsto> VRecipes t]" for t
    by (simp add: env_ok_def)
  have prog: "env_ok (registered rds []) (env (state_of (eval_program h d (Program rds main) lines)))"
    unfolding eval_program_registered
    by (rule eval_preserves_env_ok(2)) (simp add: init)
  have frame: "env_ok rs local"
    if "env_ok rs en" "bind_args h en pas [''__recipes__'' \<mapsto> VRecipes rs] = Inr local"
    using bind_args_ok [OF that(1) init that(2)] .
  from prog frame eval_preserves_env_ok(1) eval_expr_ok show ?thesis
    by blast
qed

theorem env_holds_values_witness:
  "env_ok demo_recipes
     (env (state_of (eval_program sample_host 1
        (Program
           [RecipeDef ''Foo'' [''y'']
              [MixStmt (BinOp (Var ''y'') ''+'' (Number 10)) ''x'', IngredientDecl ''z'' ''Number'',
               ServeStmt (Var ''x'')]]
           [MixStmt (Var ''__recipes__'') ''t'', MakeStmt ''Foo'' [Number 2]]) [])))
   \<and> env (state_of (eval_program sample_host 1
        (Program
           [RecipeDef ''Foo'' [''y'']
              [MixStmt (BinOp (Var ''y'') ''+'' (Number 10)) ''x'', IngredientDecl ''z'' ''Number'',
               ServeStmt (Var ''x'')]]
           [MixStmt (Var ''__recipes__'') ''t'', MakeStmt ''Foo'' [Number 2]]) [])) ''t''
     = Some (VRecipes demo_recipes)"
proof -
  let ?rds = "[RecipeDef ''Foo'' [''y'']
         [MixStmt (BinOp (Var ''y'') ''+'' (Number 10)) ''x'', IngredientDecl ''z'' ''Number'',
          ServeStmt (Var ''x'')]]"
  let ?main = "[MixStmt (Var ''__recipes__'') ''t'', MakeStmt ''Foo'' [Number 2]]"
  have r: "registered ?rds [] = demo_recipes"
    by (simp add: demo_recipes_def)
  have a: "env_ok demo_recipes
     (env (state_of (eval_program sample_host 1 (Program ?rds ?main) [])))"
    using env_holds_values [THEN conjunct1, of ?rds sample_host 1 ?main "[]"] unfolding r .
  have b: "env (state_of (eval_program sample_host 1 (Program ?rds ?main) [])) ''t''
     = Some (VRecipes demo_recipes)"
    by (simp add: demo_recipes_def str_int_def str_nat.simps digit_char_def)
  from a b show ?thesis by (rule conjI)
qed

text \<open>
  C10 as stated fails: \<^verbatim>\<open>__recipes__\<close> lexes as an identifier and the table is stored
  under that key of the same dictionary, so \<^verbatim>\<open>mix __recipes__ into t;\<close> reads the table
  (a value that is neither an integer nor a string) and \<^verbatim>\<open>mix 1 into __recipes__;\<close>
  overwrites it.
\<close>

theorem recipes_name_visible_counterexample:
  "parse [ID ''mix'', ID ''__recipes__'', ID ''into'', ID ''t'', SYM CHR '';'',
          ID ''mix'', NUMBER 1, ID ''into'', ID ''__recipes__'', SYM CHR '';'', EOF]
     = Inr (Program [] [MixStmt (Var ''__recipes__'') ''t'', MixStmt (Number 1) ''__recipes__''])
   \<and> eval_expr sample_host [''__recipes__'' \<mapsto> VRecipes []] (Var ''__recipes__'')
     = Inr (VRecipes [])
   \<and> env (state_of (eval_program sample_host 0
        (Program [] [MixStmt (Var ''__recipes__'') ''t'', MixStmt (Number 1) ''__recipes__'']) []))
       ''t'' = Some (VRecipes [])
   \<and> env (state_of (eval_program sample_host 0
        (Program [] [MixStmt (Var ''__recipes__'') ''t'', MixStmt (Number 1) ''__recipes__'']) []))
       ''__recipes__'' = Some (VInt 1)"
  by (simp add: parser_simps)

section \<open>Calls before definitions\<close>







lemma kept_Done: "env s ''__recipes__'' = Some (VRecipes rs) \<Longrightarrow> kept rs (Done s)"
  by (simp add: kept_def)

lemma kept_Raise:
  "env s ''__recipes__'' = Some (VRecipes rs) \<Longrightarrow> (\<And>name. e \<noteq> NameError_recipe name) \<Longrightarrow>
     kept rs (Raise e s)"
  by (simp add: kept_def)











end
